theory Spec2Isabelle
  imports Main "HOL-Library.Char_ord" "HOL-Library.List_Lexorder" "HOL-Library.Sublist"
    "HOL-Library.Multiset"
begin

section \<open>Strings, maps and panics of the Go source\<close>

text \<open>
  A Go \<open>string\<close> is a sequence of bytes: it is modelled as \<open>string\<close> (a \<open>char list\<close>,
  one \<open>char\<close> per byte), \<open>len\<close> is \<open>length\<close>, and \<open><\<close> on strings is the
  bytewise lexicographic order of \<open>HOL-Library.List_Lexorder\<close> over \<open>HOL-Library.Char_ord\<close>,
  which is Go's string comparison.  A \<open>map[string]string\<close> is a partial function; reading
  a missing key gives the empty string, as in Go.  A run-time panic of the source (an index
  out of range) is a value of type \<open>panic\<close>, returned as \<open>Inl\<close>.
\<close>

datatype panic = IndexOutOfRange

definition mget :: "(string \<rightharpoonup> string) \<Rightarrow> string \<Rightarrow> string" where
  "mget m k = (case m k of None \<Rightarrow> [] | Some v \<Rightarrow> v)"

text \<open>
  The slice expression \<open>s[lo:hi]\<close>.  Every use in the source is guarded by a test on
  \<open>len(s)\<close> that keeps \<open>hi\<close> in range, so the panic of an out-of-range slice is never
  reached; the guards are kept in the model.
\<close>

definition slice :: "string \<Rightarrow> nat \<Rightarrow> nat \<Rightarrow> string" where
  "slice s lo hi = take (hi - lo) (drop lo s)"

definition HasPrefix :: "string \<Rightarrow> string \<Rightarrow> bool" where
  "HasPrefix s p = (take (length p) s = p)"

text \<open>
  \<open>strings.ToLower\<close>.  On a string of ASCII bytes the library maps \<open>A..Z\<close> to \<open>a..z\<close>
  byte by byte and leaves every other byte alone.  On any other string it calls
  \<open>strings.Map(unicode.ToLower, s)\<close>, which decodes UTF-8 and consults the Unicode case
  tables; that library code is not part of the repository and is the parameter \<open>uni\<close>.
\<close>

definition isASCII :: "string \<Rightarrow> bool" where
  "isASCII s = (\<forall>c \<in> set s. (of_char c :: nat) < 128)"

definition isUpperByte :: "char \<Rightarrow> bool" where
  "isUpperByte c = (65 \<le> (of_char c :: nat) \<and> (of_char c :: nat) \<le> 90)"

definition isLowerByte :: "char \<Rightarrow> bool" where
  "isLowerByte c = (97 \<le> (of_char c :: nat) \<and> (of_char c :: nat) \<le> 122)"

definition lowerByte :: "char \<Rightarrow> char" where
  "lowerByte c = (if isUpperByte c then char_of ((of_char c :: nat) + 32) else c)"

definition ToLower :: "(string \<Rightarrow> string) \<Rightarrow> string \<Rightarrow> string" where
  "ToLower uni s = (if isASCII s then map lowerByte s else uni s)"

section \<open>Data model\<close>

text \<open>
  The structs of package \<open>types\<close>, with the fields the source reads and writes.  Field
  names carry a prefix because several structs share the names \<open>Char\<close>, \<open>Code\<close>,
  \<open>Word\<close> and \<open>Weight\<close>.  Frequencies are \<open>int64\<close> values that are only compared,
  never computed with, so they are integers.  The \<open>Division\<close> pointer of a \<open>CharMeta\<close>
  is \<open>nil\<close> in the records that the simplifier creates, hence an option.
\<close>

record Division =
  dv_Char :: string
  dv_Divs :: "string list"
  dv_Pin :: string
  dv_Set :: string
  dv_Unicode :: string

record CharMeta =
  cm_Char :: string
  cm_Full :: string
  cm_Code :: string
  cm_Freq :: int
  cm_MDiv :: bool
  cm_Simp :: bool
  cm_Division :: "Division option"

section \<open>Full-code builder\<close>

text \<open>The first loop of \<open>calcFullCodeByDiv\<close>: the annotated string \<open>full\<close>.\<close>

fun fullAnnot :: "(string \<rightharpoonup> string) \<Rightarrow> nat \<Rightarrow> string list \<Rightarrow> string \<Rightarrow> string" where
  "fullAnnot m i [] full = full"
| "fullAnnot m i (cmp # rest) full =
     (let compCode = mget m cmp in
      if length compCode = 0 then fullAnnot m (Suc i) rest full
      else fullAnnot m (Suc i) rest ((if i > 0 then full @ ''_'' else full) @ compCode))"

text \<open>The last two statements: truncation to four bytes and lower-casing.\<close>

definition finishCode :: "(string \<Rightarrow> string) \<Rightarrow> string \<Rightarrow> string" where
  "finishCode uni code = ToLower uni (if length code > 4 then slice code 0 4 else code)"

text \<open>
  \<open>calcFullCodeByDiv\<close>, branch by branch.  With an empty \<open>div\<close> the source falls into
  the last branch and panics at \<open>div[0]\<close>.
\<close>

definition calcFullCodeByDiv ::
  "(string \<Rightarrow> string) \<Rightarrow> string list \<Rightarrow> (string \<rightharpoonup> string) \<Rightarrow> panic + (string \<times> string)" where
  "calcFullCodeByDiv uni dv m =
    (let full = fullAnnot m 0 dv [] in
     if length dv = 1 then
       (let compCode = mget m (dv ! 0) in
        if length compCode = 0 then Inr ([], [])
        else
          (let code1 = slice compCode 0 1;
               code2 = (if length compCode \<ge> 2 then code1 @ slice compCode 1 2
                        else code1 @ slice compCode 0 1);
               code3 = (if length compCode \<ge> 2 then code2 @ slice compCode 1 2
                        else code2 @ slice compCode 0 1);
               code4 = (if length compCode \<ge> 3 then code3 @ slice compCode 2 3
                        else if length compCode = 2 then code3 @ slice compCode 1 2
                        else code3 @ slice compCode 0 1)
           in Inr (full, finishCode uni code4)))
     else if length dv = 2 then
       (let firstCompCode = mget m (dv ! 0);
            secondCompCode = mget m (dv ! 1) in
        if length firstCompCode = 0 \<or> length secondCompCode = 0 then Inr ([], [])
        else
          (let code1 = slice firstCompCode 0 1;
               code2 = code1 @ slice secondCompCode 0 1;
               code3 = (if length firstCompCode \<ge> 2 then code2 @ slice firstCompCode 1 2
                        else code2 @ slice firstCompCode 0 1);
               code4 = (if length secondCompCode \<ge> 3 then code3 @ slice secondCompCode 2 3
                        else if length secondCompCode = 2 then code3 @ slice secondCompCode 1 2
                        else code3 @ slice secondCompCode 0 1)
           in Inr (full, finishCode uni code4)))
     else if length dv = 0 then Inl IndexOutOfRange
     else
       (let firstCompCode = mget m (dv ! 0);
            secondCompCode = mget m (dv ! 1);
            lastCompCode = mget m (dv ! (length dv - 1)) in
        if length firstCompCode = 0 \<or> length secondCompCode = 0 \<or> length lastCompCode = 0
        then Inr ([], [])
        else
          (let code1 = slice firstCompCode 0 1;
               code2 = code1 @ slice secondCompCode 0 1;
               code3 = code2 @ slice lastCompCode 0 1;
               code4 = (if length lastCompCode \<ge> 3 then code3 @ slice lastCompCode 2 3
                        else if length lastCompCode = 2 then code3 @ slice lastCompCode 1 2
                        else code3 @ slice lastCompCode 0 1)
           in Inr (full, finishCode uni code4))))"


text \<open>
  \<open>sort.Slice(xs, less)\<close>.  For a \<open>less\<close> that is a strict weak order the library
  promises a permutation of \<open>xs\<close> in which no element is \<open>less\<close> than an earlier one:
  \<open>sortsBy\<close>.  It does not promise to keep the order of elements that \<open>less\<close> does not
  separate, and on slices of more than 12 elements its algorithm does not keep it.
  \<open>sortSlice\<close> is insertion sort, which the library runs on slices of up to 12
  elements; no theorem below relies on the order it gives to elements that \<open>less\<close> does
  not separate.
\<close>

fun insertSlice :: "('a \<Rightarrow> 'a \<Rightarrow> bool) \<Rightarrow> 'a \<Rightarrow> 'a list \<Rightarrow> 'a list" where
  "insertSlice lt x [] = [x]"
| "insertSlice lt x (y # ys) = (if lt y x then y # insertSlice lt x ys else x # y # ys)"

definition sortSlice :: "('a \<Rightarrow> 'a \<Rightarrow> bool) \<Rightarrow> 'a list \<Rightarrow> 'a list" where
  "sortSlice lt xs = foldr (insertSlice lt) xs []"

definition sortsBy :: "('a \<Rightarrow> 'a \<Rightarrow> bool) \<Rightarrow> ('a list \<Rightarrow> 'a list) \<Rightarrow> bool" where
  "sortsBy lt srt = (\<forall>xs. mset (srt xs) = mset xs \<and> sorted_wrt (\<lambda>a b. \<not> lt b a) (srt xs))"

text \<open>The comparison functions of \<open>sortCharMetaByCode\<close> and \<open>sortCharMetaByFreq\<close>.\<close>

definition lessByCode :: "CharMeta \<Rightarrow> CharMeta \<Rightarrow> bool" where
  "lessByCode a b =
     (if cm_Code a \<noteq> cm_Code b then cm_Code a < cm_Code b
      else if cm_Freq a \<noteq> cm_Freq b then cm_Freq a > cm_Freq b
      else cm_Char a < cm_Char b)"

definition lessByFreq :: "CharMeta \<Rightarrow> CharMeta \<Rightarrow> bool" where
  "lessByFreq a b =
     (if cm_Freq a \<noteq> cm_Freq b then cm_Freq a > cm_Freq b
      else if cm_Code a \<noteq> cm_Code b then cm_Code a < cm_Code b
      else cm_Char a < cm_Char b)"

definition sortCharMetaByCode :: "CharMeta list \<Rightarrow> CharMeta list" where
  "sortCharMetaByCode charMetaList = sortSlice lessByCode charMetaList"

definition sortCharMetaByFreq :: "CharMeta list \<Rightarrow> CharMeta list" where
  "sortCharMetaByFreq charMetaList = sortSlice lessByFreq charMetaList"

text \<open>
  \<open>BuildFullCodeMetaList\<close>.  The table is a Go map, given here as the list of its
  (character, decompositions) pairs in the order in which the entries reach the merged
  slice: the source ranges over the map in an unspecified order and appends the batches
  of its goroutines in the order in which they finish.  The frequency map yields 0 for a
  character it does not hold.  The inner loop appends one \<open>CharMeta\<close> for every
  decomposition, whatever \<open>calcFullCodeByDiv\<close> returned.
\<close>

definition fget :: "(string \<rightharpoonup> int) \<Rightarrow> string \<Rightarrow> int" where
  "fget freqSet k = (case freqSet k of None \<Rightarrow> 0 | Some f \<Rightarrow> f)"

fun charEntries ::
  "(string \<Rightarrow> string) \<Rightarrow> (string \<rightharpoonup> string) \<Rightarrow> (string \<rightharpoonup> int) \<Rightarrow> string \<Rightarrow> nat \<Rightarrow>
   Division list \<Rightarrow> panic + CharMeta list" where
  "charEntries uni m freqSet ch i [] = Inr []"
| "charEntries uni m freqSet ch i (d # ds) =
     (case calcFullCodeByDiv uni (dv_Divs d) m of
        Inl p \<Rightarrow> Inl p
      | Inr (full, code) \<Rightarrow>
          (case charEntries uni m freqSet ch (Suc i) ds of
             Inl p \<Rightarrow> Inl p
           | Inr rest \<Rightarrow>
               Inr (\<lparr>cm_Char = ch, cm_Full = full, cm_Code = code, cm_Freq = fget freqSet ch,
                     cm_MDiv = (i = 0), cm_Simp = False, cm_Division = Some d\<rparr> # rest)))"

fun tableEntries ::
  "(string \<Rightarrow> string) \<Rightarrow> (string \<rightharpoonup> string) \<Rightarrow> (string \<rightharpoonup> int) \<Rightarrow>
   (string \<times> Division list) list \<Rightarrow> panic + CharMeta list" where
  "tableEntries uni m freqSet [] = Inr []"
| "tableEntries uni m freqSet ((ch, divs) # rest) =
     (case charEntries uni m freqSet ch 0 divs of
        Inl p \<Rightarrow> Inl p
      | Inr es \<Rightarrow>
          (case tableEntries uni m freqSet rest of
             Inl p \<Rightarrow> Inl p
           | Inr others \<Rightarrow> Inr (es @ others)))"

text \<open>The revision in \<open>gen_ll/tools/builder.go\<close> ends with \<open>sortCharMetaByCode\<close>.\<close>

definition BuildFullCodeMetaList ::
  "(string \<Rightarrow> string) \<Rightarrow> (string \<times> Division list) list \<Rightarrow> (string \<rightharpoonup> string) \<Rightarrow>
   (string \<rightharpoonup> int) \<Rightarrow> panic + CharMeta list" where
  "BuildFullCodeMetaList uni table m freqSet =
     (case tableEntries uni m freqSet table of
        Inl p \<Rightarrow> Inl p
      | Inr charMetaList \<Rightarrow> Inr (sortCharMetaByCode charMetaList))"

text \<open>
  The other revision of the same file in the repository (the one that also holds the
  placeholder back-fill) ends with \<open>sortCharMetaByFreq\<close> instead.
\<close>

definition BuildFullCodeMetaList_byFreq ::
  "(string \<Rightarrow> string) \<Rightarrow> (string \<times> Division list) list \<Rightarrow> (string \<rightharpoonup> string) \<Rightarrow>
   (string \<rightharpoonup> int) \<Rightarrow> panic + CharMeta list" where
  "BuildFullCodeMetaList_byFreq uni table m freqSet =
     (case tableEntries uni m freqSet table of
        Inl p \<Rightarrow> Inl p
      | Inr charMetaList \<Rightarrow> Inr (sortCharMetaByFreq charMetaList))"

section \<open>Single-character simplifier\<close>

text \<open>
  \<open>string(code[len(code)-1])\<close> converts a byte to a string: Go yields the UTF-8 encoding
  of the code point with that number, one byte below 128 and two bytes from 128 on.
\<close>

definition byteToString :: "char \<Rightarrow> string" where
  "byteToString c =
     (if (of_char c :: nat) < 128 then [c]
      else [char_of (192 + (of_char c :: nat) div 64), char_of (128 + (of_char c :: nat) mod 64)])"

text \<open>
  The quota table \<open>lenCodeLimit\<close> is a \<open>map[int]int\<close> that is only read, at positive
  keys; a missing key reads as 0.  It is a function from the key to the quota.
\<close>

type_synonym quota = "nat \<Rightarrow> int"

definition samePrefixCount :: "CharMeta list \<Rightarrow> nat \<Rightarrow> string \<Rightarrow> nat" where
  "samePrefixCount resultData targetLength currentPrefix =
     length (filter (\<lambda>res. length (cm_Code res) = targetLength \<and>
                            HasPrefix (cm_Code res) currentPrefix) resultData)"

definition targetLength :: "nat \<Rightarrow> nat" where
  "targetLength n = (if n \<le> 2 then n + 1 else n)"

text \<open>
  The inner loop \<open>for i := 0; i < len(code); i++\<close>, over the indices still to try.  It
  returns the accepted candidate, or the empty string when every length was skipped.
\<close>

fun trySimplify ::
  "quota \<Rightarrow> CharMeta list \<Rightarrow> string set \<Rightarrow> string \<Rightarrow> string \<Rightarrow> nat list \<Rightarrow> string" where
  "trySimplify lenCodeLimit resultData usedCodes code fullCodeLastChar [] = []"
| "trySimplify lenCodeLimit resultData usedCodes code fullCodeLastChar (i # rest) =
     (let limit = lenCodeLimit (i + 1) in
      if limit = 0 then trySimplify lenCodeLimit resultData usedCodes code fullCodeLastChar rest
      else
        (let currentPrefix = slice code 0 (i + 1) in
         if int (samePrefixCount resultData (targetLength (i + 1)) currentPrefix) \<ge> limit
         then trySimplify lenCodeLimit resultData usedCodes code fullCodeLastChar rest
         else
           (let candidate = (if i + 1 \<le> 2 then currentPrefix @ fullCodeLastChar
                             else currentPrefix) in
            if candidate \<notin> usedCodes then candidate
            else trySimplify lenCodeLimit resultData usedCodes code fullCodeLastChar rest)))"

text \<open>
  The outer loop over the frequency-sorted list, with the state \<open>resultData\<close> and
  \<open>usedCodes\<close>.  An entry with an empty code that is not in the no-simplify set makes
  \<open>code[len(code)-1]\<close> panic.
\<close>

fun simplifyLoop ::
  "quota \<Rightarrow> string set \<Rightarrow> CharMeta list \<Rightarrow> CharMeta list \<Rightarrow> string set \<Rightarrow>
   panic + CharMeta list" where
  "simplifyLoop lenCodeLimit noSimplifySet [] resultData usedCodes = Inr resultData"
| "simplifyLoop lenCodeLimit noSimplifySet (charMeta # rest) resultData usedCodes =
     (let word = cm_Char charMeta; code = cm_Code charMeta; freq = cm_Freq charMeta in
      if word \<in> noSimplifySet
      then simplifyLoop lenCodeLimit noSimplifySet rest resultData usedCodes
      else if length code = 0 then Inl IndexOutOfRange
      else
        (let fullCodeLastChar = byteToString (code ! (length code - 1));
             simplified = trySimplify lenCodeLimit resultData usedCodes code fullCodeLastChar
                            [0 ..< length code];
             usedCodes' = (if simplified \<noteq> [] then insert simplified usedCodes else usedCodes);
             resultData' =
               (if simplified \<noteq> [] \<and> simplified \<noteq> code
                then resultData @ [\<lparr>cm_Char = word, cm_Full = [], cm_Code = simplified,
                                     cm_Freq = freq, cm_MDiv = False, cm_Simp = True,
                                     cm_Division = None\<rparr>]
                else resultData)
         in simplifyLoop lenCodeLimit noSimplifySet rest resultData' usedCodes'))"

definition BuildSimpleCodeList ::
  "CharMeta list \<Rightarrow> quota \<Rightarrow> string list \<Rightarrow> panic + CharMeta list" where
  "BuildSimpleCodeList fullCodeList lenCodeLimit noSimplifyChars =
     simplifyLoop lenCodeLimit (set noSimplifyChars)
       (sortSlice (\<lambda>a b. cm_Freq a > cm_Freq b) fullCodeList) [] {}"


section \<open>Words\<close>

text \<open>
  \<open>[]rune(word)\<close> decodes UTF-8 as \<open>utf8.DecodeRuneInString\<close> does: a well-formed
  sequence of one to four bytes is one rune, and any other byte is the replacement rune
  \<open>U+FFFD\<close> of width 1.  The source only takes the number of runes and converts single
  runes back with \<open>string(chars[i])\<close>, so \<open>runes\<close> returns each rune as the string it
  converts back to: the bytes read for a well-formed rune, \<open>EF BF BD\<close> otherwise.
\<close>

definition inRange :: "nat \<Rightarrow> nat \<Rightarrow> char \<Rightarrow> bool" where
  "inRange lo hi c = (lo \<le> (of_char c :: nat) \<and> (of_char c :: nat) \<le> hi)"

definition runeError :: string where
  "runeError = [char_of (239 :: nat), char_of (191 :: nat), char_of (189 :: nat)]"

fun decodeRune :: "string \<Rightarrow> string \<times> nat" where
  "decodeRune [] = (runeError, 0)"
| "decodeRune (s0 # rest) =
     (let b = (of_char s0 :: nat) in
      if b < 128 then ([s0], 1)
      else if b < 194 then (runeError, 1)
      else if b \<le> 223 then
        (case rest of
           s1 # _ \<Rightarrow> if inRange 128 191 s1 then ([s0, s1], 2) else (runeError, 1)
         | _ \<Rightarrow> (runeError, 1))
      else if b \<le> 239 then
        (let lo = (if b = 224 then 160 else 128); hi = (if b = 237 then 159 else 191) in
         case rest of
           s1 # s2 # _ \<Rightarrow>
             if inRange lo hi s1 \<and> inRange 128 191 s2 then ([s0, s1, s2], 3)
             else (runeError, 1)
         | _ \<Rightarrow> (runeError, 1))
      else if b \<le> 244 then
        (let lo = (if b = 240 then 144 else 128); hi = (if b = 244 then 143 else 191) in
         case rest of
           s1 # s2 # s3 # _ \<Rightarrow>
             if inRange lo hi s1 \<and> inRange 128 191 s2 \<and> inRange 128 191 s3
             then ([s0, s1, s2, s3], 4)
             else (runeError, 1)
         | _ \<Rightarrow> (runeError, 1))
      else (runeError, 1))"

fun runes :: "string \<Rightarrow> string list" where
  "runes [] = []"
| "runes (c # cs) = fst (decodeRune (c # cs)) # runes (drop (snd (decodeRune (c # cs)) - 1) cs)"

text \<open>
  \<open>strings.Map(unicode.ToLower, s)\<close>, the path that \<open>strings.ToLower\<close> takes on a
  string with a byte from 128 on, for a string whose runes outside ASCII have no lower-case
  form: the letters \<open>A..Z\<close> are lower-cased, every other well-formed rune is written back
  as it is, and an ill-formed byte, read as \<open>U+FFFD\<close>, is written as \<open>EF BF BD\<close>.
  The Unicode case tables are not modelled.
\<close>

definition mapToLower :: "string \<Rightarrow> string" where
  "mapToLower s = map lowerByte (concat (runes s))"

record WordEntry =
  we_Word :: string
  we_Weight :: string

record WordCode =
  wc_Word :: string
  wc_Code :: string
  wc_Weight :: string

record WordSimpleCode =
  ws_Word :: string
  ws_Code :: string
  ws_Weight :: string

subsection \<open>Word full-code builder\<close>

text \<open>The \<open>switch len(chars)\<close> of \<open>BuildWordsFullCode\<close>; the code stays empty when no case applies.\<close>

definition wordFullCode :: "string list \<Rightarrow> (string \<rightharpoonup> string) \<Rightarrow> string" where
  "wordFullCode chars charCodeMap =
     (if length chars = 2 then
        (let firstCode = mget charCodeMap (chars ! 0);
             secondCode = mget charCodeMap (chars ! 1) in
         if length firstCode \<ge> 2 \<and> length secondCode \<ge> 2
         then slice firstCode 0 2 @ slice secondCode 0 2 else [])
      else if length chars = 3 then
        (let firstCode = mget charCodeMap (chars ! 0);
             secondCode = mget charCodeMap (chars ! 1);
             thirdCode = mget charCodeMap (chars ! 2) in
         if length firstCode \<ge> 1 \<and> length secondCode \<ge> 1 \<and> length thirdCode \<ge> 2
         then slice firstCode 0 1 @ slice secondCode 0 1 @ slice thirdCode 0 2 else [])
      else if length chars \<ge> 4 then
        (let firstCode = mget charCodeMap (chars ! 0);
             secondCode = mget charCodeMap (chars ! 1);
             thirdCode = mget charCodeMap (chars ! 2);
             lastCode = mget charCodeMap (chars ! (length chars - 1)) in
         if length firstCode \<ge> 1 \<and> length secondCode \<ge> 1 \<and> length thirdCode \<ge> 1 \<and>
            length lastCode \<ge> 1
         then slice firstCode 0 1 @ slice secondCode 0 1 @ slice thirdCode 0 1 @ slice lastCode 0 1
         else [])
      else [])"

fun BuildWordsFullCode :: "WordEntry list \<Rightarrow> (string \<rightharpoonup> string) \<Rightarrow> WordCode list" where
  "BuildWordsFullCode [] charCodeMap = []"
| "BuildWordsFullCode (entry # rest) charCodeMap =
     (let word = we_Word entry;
          chars = runes word;
          code = wordFullCode chars charCodeMap in
      if code \<noteq> []
      then \<lparr>wc_Word = word, wc_Code = code, wc_Weight = we_Weight entry\<rparr> #
           BuildWordsFullCode rest charCodeMap
      else BuildWordsFullCode rest charCodeMap)"

subsection \<open>Weights\<close>

text \<open>
  \<open>strconv.ParseInt(s, 10, 64)\<close>: an optional sign, then at least one decimal digit and
  nothing else; a value outside \<open>int64\<close> is an error.  \<open>parseWeight\<close> turns every error
  into 0.
\<close>

definition isDigit :: "char \<Rightarrow> bool" where
  "isDigit c = (48 \<le> (of_char c :: nat) \<and> (of_char c :: nat) \<le> 57)"

fun digitsValue :: "nat \<Rightarrow> string \<Rightarrow> nat" where
  "digitsValue acc [] = acc"
| "digitsValue acc (c # cs) = digitsValue (acc * 10 + ((of_char c :: nat) - 48)) cs"

definition ParseInt :: "string \<Rightarrow> int option" where
  "ParseInt s =
     (if s = [] then None
      else
        (let neg = (hd s = CHR ''-'');
             ds = (if hd s = CHR ''-'' \<or> hd s = CHR ''+'' then tl s else s) in
         if ds = [] \<or> \<not> list_all isDigit ds then None
         else
           (let un = digitsValue 0 ds in
            if \<not> neg \<and> un \<ge> 2 ^ 63 then None
            else if neg \<and> un > 2 ^ 63 then None
            else Some (if neg then - int un else int un))))"

definition parseWeight :: "string \<Rightarrow> int" where
  "parseWeight weightStr =
     (if weightStr = [] then 0
      else (case ParseInt weightStr of None \<Rightarrow> 0 | Some weight \<Rightarrow> weight))"

subsection \<open>Word simplifier\<close>

text \<open>
  The base code that \<open>BuildWordsSimpleCode\<close> tries at one \<open>codeLength\<close>, or \<open>None\<close>
  where the source says \<open>continue\<close> before it reads the counter.
\<close>

definition baseCodeAt :: "quota \<Rightarrow> string \<Rightarrow> nat \<Rightarrow> nat \<Rightarrow> string option" where
  "baseCodeAt lenCodeLimit code wordLength codeLength =
     (if lenCodeLimit codeLength = 0 then None
      else if codeLength = 2 \<and> wordLength \<noteq> 2 then None
      else if codeLength = 3 \<and> wordLength \<noteq> 3 then None
      else if codeLength = 2 \<and> wordLength = 2 then
        (if length code \<ge> 3 then Some (slice code 0 1 @ slice code 2 3) else None)
      else
        (if length code \<ge> codeLength then Some (slice code 0 codeLength) else None))"

type_synonym counters = "nat \<Rightarrow> string \<Rightarrow> int"

text \<open>
  The loop \<open>for codeLength := 1; codeLength <= 3; codeLength++\<close>, over the lengths still
  to try; it returns the length and base code at which it breaks.
\<close>

fun tryLengths ::
  "quota \<Rightarrow> counters \<Rightarrow> string \<Rightarrow> nat \<Rightarrow> nat list \<Rightarrow> (nat \<times> string) option" where
  "tryLengths lenCodeLimit codeCounters code wordLength [] = None"
| "tryLengths lenCodeLimit codeCounters code wordLength (codeLength # rest) =
     (case baseCodeAt lenCodeLimit code wordLength codeLength of
        None \<Rightarrow> tryLengths lenCodeLimit codeCounters code wordLength rest
      | Some baseCode \<Rightarrow>
          (let currentCount = codeCounters codeLength baseCode in
           if currentCount < lenCodeLimit codeLength then Some (codeLength, baseCode)
           else tryLengths lenCodeLimit codeCounters code wordLength rest))"

fun allocLoop ::
  "quota \<Rightarrow> WordCode list \<Rightarrow> WordSimpleCode list \<Rightarrow> counters \<Rightarrow> WordSimpleCode list" where
  "allocLoop lenCodeLimit [] resultData codeCounters = resultData"
| "allocLoop lenCodeLimit (wordCode # rest) resultData codeCounters =
     (let word = wc_Word wordCode; code = wc_Code wordCode; weight = wc_Weight wordCode;
          wordLength = length (runes word) in
      case tryLengths lenCodeLimit codeCounters code wordLength [1, 2, 3] of
        None \<Rightarrow> allocLoop lenCodeLimit rest resultData codeCounters
      | Some (codeLength, baseCode) \<Rightarrow>
          allocLoop lenCodeLimit rest
            (resultData @ [\<lparr>ws_Word = word, ws_Code = baseCode, ws_Weight = weight\<rparr>])
            (codeCounters(codeLength := (codeCounters codeLength)
               (baseCode := codeCounters codeLength baseCode + 1))))"

definition allocWords :: "WordCode list \<Rightarrow> quota \<Rightarrow> WordSimpleCode list" where
  "allocWords wordCodes lenCodeLimit =
     allocLoop lenCodeLimit
       (sortSlice (\<lambda>a b. parseWeight (wc_Weight a) > parseWeight (wc_Weight b)) wordCodes)
       [] (\<lambda>codeLength baseCode. 0)"

text \<open>\<open>BuildWordsSimpleCode\<close> of \<open>gen_ll/tools/builder.go\<close> returns the allocation as it is.\<close>

definition BuildWordsSimpleCode :: "WordCode list \<Rightarrow> quota \<Rightarrow> WordSimpleCode list" where
  "BuildWordsSimpleCode wordCodes lenCodeLimit = allocWords wordCodes lenCodeLimit"


subsection \<open>Placeholder back-fill\<close>

text \<open>
  The ten placeholder tokens are the circled digits \<open>U+2460\<close> to \<open>U+2469\<close>; in UTF-8
  each is the three bytes \<open>E2 91 A0\<close> to \<open>E2 91 A9\<close>.
\<close>

definition circled :: "string list" where
  "circled = map (\<lambda>k. [char_of (226 :: nat), char_of (145 :: nat), char_of (160 + k)]) [0 ..< 10]"

fun showNat :: "nat \<Rightarrow> string" where
  "showNat n = (if n < 10 then [char_of (48 + n)]
                else showNat (n div 10) @ [char_of (48 + n mod 10)])"

text \<open>
  \<open>generatePlaceholders\<close>.  The \<open>switch maxLimit\<close> lists the first \<open>maxLimit\<close> circled
  digits for 1 to 10 and builds \<open>(1)\<close>, \<open>(2)\<close>, ... otherwise.  The final slice panics
  when \<open>startIndex\<close> is below 1 (as does \<open>make\<close> for a negative \<open>maxLimit\<close>, which the
  first test lets through only together with such a \<open>startIndex\<close>).
\<close>

definition generatePlaceholders :: "int \<Rightarrow> int \<Rightarrow> int \<Rightarrow> panic + string list" where
  "generatePlaceholders startIndex cnt maxLimit =
     (if cnt \<le> 0 \<or> startIndex > maxLimit then Inr []
      else if startIndex \<le> 0 then Inl IndexOutOfRange
      else
        (let placeholders =
               (if 1 \<le> maxLimit \<and> maxLimit \<le> 10 then take (nat maxLimit) circled
                else map (\<lambda>i. ''('' @ showNat (i + 1) @ '')'') [0 ..< nat maxLimit]) in
         if startIndex > int (length placeholders) then Inr []
         else
           (let endIndex = startIndex + cnt - 1;
                cnt' = (if endIndex > int (length placeholders)
                          then int (length placeholders) - startIndex + 1 else cnt) in
            if cnt' \<le> 0 then Inr []
            else Inr (take (nat cnt') (drop (nat (startIndex - 1)) placeholders)))))"

text \<open>
  \<open>isPlaceholder\<close> asks for a string of one byte and compares that byte, as a rune,
  with the circled digits.
\<close>

definition isPlaceholder :: "string \<Rightarrow> bool" where
  "isPlaceholder word =
     (if length word = 1
      then (of_char (word ! 0) :: nat) \<ge> 9312 \<and> (of_char (word ! 0) :: nat) \<le> 9321
      else False)"

definition getPlaceholderIndex :: "string \<Rightarrow> int" where
  "getPlaceholderIndex word =
     (if \<not> isPlaceholder word then 0
      else int (of_char (word ! 0) :: nat) - 9312 + 1)"

definition getPlaceholderWeight :: "string \<Rightarrow> string" where
  "getPlaceholderWeight word =
     (case map_of (zip circled [''-1'', ''-2'', ''-3'', ''-4'', ''-5'', ''-6'', ''-7'', ''-8'',
                                ''-9'', ''-10'']) word of
        Some weight \<Rightarrow> weight
      | None \<Rightarrow> ''-0'')"

text \<open>The comparison function of \<open>SortWordSimpleCodes\<close> in the revision with the back-fill.\<close>

definition lessSimpleCode :: "WordSimpleCode \<Rightarrow> WordSimpleCode \<Rightarrow> bool" where
  "lessSimpleCode a b =
     (if ws_Code a \<noteq> ws_Code b then ws_Code a < ws_Code b
      else
        (let aIsPlaceholder = isPlaceholder (ws_Word a);
             bIsPlaceholder = isPlaceholder (ws_Word b) in
         if aIsPlaceholder \<noteq> bIsPlaceholder then \<not> aIsPlaceholder
         else if aIsPlaceholder \<and> bIsPlaceholder
         then getPlaceholderIndex (ws_Word a) < getPlaceholderIndex (ws_Word b)
         else
           (let weightA = parseWeight (ws_Weight a); weightB = parseWeight (ws_Weight b) in
            if weightA \<noteq> weightB then weightA > weightB
            else ws_Word a < ws_Word b)))"

definition SortWordSimpleCodes :: "WordSimpleCode list \<Rightarrow> WordSimpleCode list" where
  "SortWordSimpleCodes wordSimpleCodes = sortSlice lessSimpleCode wordSimpleCodes"

definition placeholderEntries :: "string \<Rightarrow> string list \<Rightarrow> WordSimpleCode list" where
  "placeholderEntries code placeholders =
     map (\<lambda>placeholder. \<lparr>ws_Word = placeholder, ws_Code = code,
                           ws_Weight = getPlaceholderWeight placeholder\<rparr>) placeholders"

definition appendGroupPlaceholders ::
  "WordSimpleCode list \<Rightarrow> WordSimpleCode list \<Rightarrow> quota \<Rightarrow> panic + WordSimpleCode list" where
  "appendGroupPlaceholders result grp lenCodeLimit =
     (if length grp = 0 then Inr result
      else
        (let codeLength = length (ws_Code (grp ! 0));
             limit = lenCodeLimit codeLength in
         if limit = 0 then Inr result
         else if int (length grp) < limit then
           (case generatePlaceholders (int (length grp) + 1) (limit - int (length grp)) limit of
              Inl p \<Rightarrow> Inl p
            | Inr placeholders \<Rightarrow>
                Inr (result @ placeholderEntries (ws_Code (grp ! 0)) placeholders))
         else Inr result))"

text \<open>
  Closing a group in \<open>addPlaceholdersAfterSort\<close>: the group is appended and then padded,
  if it is not empty.
\<close>

definition closeGroup ::
  "WordSimpleCode list \<Rightarrow> WordSimpleCode list \<Rightarrow> quota \<Rightarrow> panic + WordSimpleCode list" where
  "closeGroup result currentGroup lenCodeLimit =
     (if length currentGroup > 0
      then appendGroupPlaceholders (result @ currentGroup) currentGroup lenCodeLimit
      else Inr result)"

fun groupLoop ::
  "quota \<Rightarrow> WordSimpleCode list \<Rightarrow> WordSimpleCode list \<Rightarrow> WordSimpleCode list \<Rightarrow> string \<Rightarrow>
   panic + WordSimpleCode list" where
  "groupLoop lenCodeLimit [] result currentGroup currentCode =
     closeGroup result currentGroup lenCodeLimit"
| "groupLoop lenCodeLimit (item # rest) result currentGroup currentCode =
     (if ws_Code item \<noteq> currentCode then
        (case closeGroup result currentGroup lenCodeLimit of
           Inl p \<Rightarrow> Inl p
         | Inr result' \<Rightarrow> groupLoop lenCodeLimit rest result' [item] (ws_Code item))
      else groupLoop lenCodeLimit rest result (currentGroup @ [item]) currentCode)"

text \<open>\<open>generateAllBaseCodes\<close> over the 24 keys.\<close>

definition keys :: "string list" where
  "keys = [''q'', ''t'', ''y'', ''p'', ''a'', ''s'', ''d'', ''f'', ''g'', ''h'', ''j'', ''k'',
           ''l'', '';'', ''z'', ''x'', ''c'', ''v'', ''b'', ''n'', ''m'', '','', ''.'', ''/'']"

definition generateAllBaseCodes :: "nat \<Rightarrow> string list" where
  "generateAllBaseCodes codeLength =
     (if codeLength = 1 then keys
      else if codeLength = 2 then
        concat (map (\<lambda>first. map (\<lambda>second. first @ second) keys) keys)
      else if codeLength = 3 then
        concat (map (\<lambda>first. concat (map (\<lambda>second.
                  map (\<lambda>third. first @ second @ third) keys) keys)) keys)
      else [])"

definition hasActualWord :: "WordSimpleCode list \<Rightarrow> string \<Rightarrow> bool" where
  "hasActualWord wordSimpleCodes baseCode =
     list_ex (\<lambda>item. ws_Code item = baseCode \<and> \<not> isPlaceholder (ws_Word item)) wordSimpleCodes"

fun fillBaseCodes ::
  "WordSimpleCode list \<Rightarrow> int \<Rightarrow> string list \<Rightarrow> WordSimpleCode list \<Rightarrow>
   panic + WordSimpleCode list" where
  "fillBaseCodes wordSimpleCodes limit [] result = Inr result"
| "fillBaseCodes wordSimpleCodes limit (baseCode # rest) result =
     (if \<not> hasActualWord wordSimpleCodes baseCode then
        (case generatePlaceholders 1 limit limit of
           Inl p \<Rightarrow> Inl p
         | Inr placeholders \<Rightarrow>
             fillBaseCodes wordSimpleCodes limit rest
               (result @ placeholderEntries baseCode placeholders))
      else fillBaseCodes wordSimpleCodes limit rest result)"

fun fillLengths ::
  "WordSimpleCode list \<Rightarrow> quota \<Rightarrow> nat list \<Rightarrow> WordSimpleCode list \<Rightarrow>
   panic + WordSimpleCode list" where
  "fillLengths wordSimpleCodes lenCodeLimit [] result = Inr result"
| "fillLengths wordSimpleCodes lenCodeLimit (codeLength # rest) result =
     (let limit = lenCodeLimit codeLength in
      if limit = 0 then fillLengths wordSimpleCodes lenCodeLimit rest result
      else
        (case fillBaseCodes wordSimpleCodes limit (generateAllBaseCodes codeLength) result of
           Inl p \<Rightarrow> Inl p
         | Inr result' \<Rightarrow> fillLengths wordSimpleCodes lenCodeLimit rest result'))"

definition addAllPossiblePlaceholders ::
  "WordSimpleCode list \<Rightarrow> quota \<Rightarrow> panic + WordSimpleCode list" where
  "addAllPossiblePlaceholders wordSimpleCodes lenCodeLimit =
     fillLengths wordSimpleCodes lenCodeLimit [1, 2, 3] wordSimpleCodes"

definition addPlaceholdersAfterSort ::
  "WordSimpleCode list \<Rightarrow> quota \<Rightarrow> panic + WordSimpleCode list" where
  "addPlaceholdersAfterSort wordSimpleCodes lenCodeLimit =
     (case groupLoop lenCodeLimit wordSimpleCodes [] [] [] of
        Inl p \<Rightarrow> Inl p
      | Inr result \<Rightarrow> addAllPossiblePlaceholders result lenCodeLimit)"

text \<open>
  \<open>BuildWordsSimpleCode\<close> of the revision with the back-fill: the same allocation, then
  \<open>SortWordSimpleCodes\<close> and \<open>addPlaceholdersAfterSort\<close>.
\<close>

definition BuildWordsSimpleCode_backfill ::
  "WordCode list \<Rightarrow> quota \<Rightarrow> panic + WordSimpleCode list" where
  "BuildWordsSimpleCode_backfill wordCodes lenCodeLimit =
     addPlaceholdersAfterSort (SortWordSimpleCodes (allocWords wordCodes lenCodeLimit))
       lenCodeLimit"

section \<open>Candidate disambiguator\<close>

record CitiEntry =
  ce_Text :: string
  ce_Code :: string
  ce_Freq :: int
  ce_Source :: string

type_synonym entryWithIndex = "CitiEntry \<times> nat"

text \<open>
  \<open>codeGroups\<close> is a \<open>map[string][]*entryWithIndex\<close>: here the list of its (code,
  group) pairs, a new code going to the end.  The source ranges over the map in an
  unspecified order; each group writes only the result slots of its own entries.
\<close>

fun groupsInsert ::
  "string \<Rightarrow> entryWithIndex \<Rightarrow> (string \<times> entryWithIndex list) list \<Rightarrow>
   (string \<times> entryWithIndex list) list" where
  "groupsInsert code ew [] = [(code, [ew])]"
| "groupsInsert code ew ((c, g) # rest) =
     (if c = code then (c, g @ [ew]) # rest else (c, g) # groupsInsert code ew rest)"

fun buildGroups ::
  "CitiEntry list \<Rightarrow> nat \<Rightarrow> (string \<times> entryWithIndex list) list \<Rightarrow>
   (string \<times> entryWithIndex list) list" where
  "buildGroups [] i codeGroups = codeGroups"
| "buildGroups (entry # rest) i codeGroups =
     buildGroups rest (Suc i) (groupsInsert (ce_Code entry) (entry, i) codeGroups)"

definition candidateSuffixes :: "string list" where
  "candidateSuffixes = [''_'', ''e'', ''i'', ''['', ''2'', ''3'', ''7'', ''8'', ''9'', ''0'']"

text \<open>
  The new code of the entry at position \<open>i\<close> of its sorted group.  The first revision of
  \<open>AddCandidateCodes\<close> keeps the bare code at position 0 of a four-byte code; the second
  revision has no such case.
\<close>

definition pagedCode :: "string \<Rightarrow> nat \<Rightarrow> string" where
  "pagedCode code i =
     (let page = (i - 10) div 10; posInPage = (i - 10) mod 10;
          equals = replicate (page + 1) CHR ''='' in
      code @ equals @ candidateSuffixes ! posInPage)"

definition newCode :: "string \<Rightarrow> nat \<Rightarrow> string" where
  "newCode code i =
     (if i = 0 \<and> length code = 4 then code
      else if i < 10 then code @ candidateSuffixes ! i
      else pagedCode code i)"

definition newCode2 :: "string \<Rightarrow> nat \<Rightarrow> string" where
  "newCode2 code i =
     (if i < 10 then code @ candidateSuffixes ! i
      else pagedCode code i)"

fun assignGroup ::
  "(string \<Rightarrow> nat \<Rightarrow> string) \<Rightarrow> string \<Rightarrow> nat \<Rightarrow> entryWithIndex list \<Rightarrow>
   CitiEntry option list \<Rightarrow> CitiEntry option list" where
  "assignGroup nc code i [] result = result"
| "assignGroup nc code i (ew # rest) result =
     assignGroup nc code (Suc i) rest
       (result[snd ew := Some \<lparr>ce_Text = ce_Text (fst ew), ce_Code = nc code i,
                                ce_Freq = ce_Freq (fst ew), ce_Source = ce_Source (fst ew)\<rparr>])"

text \<open>
  The \<open>less\<close> function that \<open>AddCandidateCodes\<close> hands to \<open>sort.Slice\<close>.  The sort
  of a group is the parameter \<open>sortGroup\<close> of the model: the library orders entries of
  equal frequency as its algorithm happens to, so the theorems assume of \<open>sortGroup\<close>
  only what \<open>sortsBy higherFreq\<close> says.
\<close>

definition higherFreq :: "entryWithIndex \<Rightarrow> entryWithIndex \<Rightarrow> bool" where
  "higherFreq a b = (ce_Freq (fst a) > ce_Freq (fst b))"

fun processGroups ::
  "(entryWithIndex list \<Rightarrow> entryWithIndex list) \<Rightarrow> (string \<Rightarrow> nat \<Rightarrow> string) \<Rightarrow>
   (string \<times> entryWithIndex list) list \<Rightarrow> CitiEntry option list \<Rightarrow> CitiEntry option list" where
  "processGroups sortGroup nc [] result = result"
| "processGroups sortGroup nc ((code, grp) # rest) result =
     (if length grp = 1
      then processGroups sortGroup nc rest (result[snd (grp ! 0) := Some (fst (grp ! 0))])
      else processGroups sortGroup nc rest (assignGroup nc code 0 (sortGroup grp) result))"

definition addCandidates ::
  "(entryWithIndex list \<Rightarrow> entryWithIndex list) \<Rightarrow> (string \<Rightarrow> nat \<Rightarrow> string) \<Rightarrow>
   CitiEntry list \<Rightarrow> CitiEntry list" where
  "addCandidates sortGroup nc entries =
     (let codeGroups = buildGroups entries 0 [];
          result = processGroups sortGroup nc codeGroups (replicate (length entries) None) in
      concat (map (\<lambda>entry. case entry of None \<Rightarrow> [] | Some e \<Rightarrow> [e]) result))"

definition AddCandidateCodes ::
  "(entryWithIndex list \<Rightarrow> entryWithIndex list) \<Rightarrow> CitiEntry list \<Rightarrow> CitiEntry list" where
  "AddCandidateCodes sortGroup entries = addCandidates sortGroup newCode entries"

definition AddCandidateCodes_rev2 ::
  "(entryWithIndex list \<Rightarrow> entryWithIndex list) \<Rightarrow> CitiEntry list \<Rightarrow> CitiEntry list" where
  "AddCandidateCodes_rev2 sortGroup entries = addCandidates sortGroup newCode2 entries"

section \<open>Notions of the specification\<close>

text \<open>
  The definitions of this section follow the words of the specification, not the source;
  the theorems compare the source's functions with them.
\<close>

text \<open>
  Positions 2 to 4 of a full code, as the specification gives them: the second symbol of a
  component code, or the first if there is none; the third symbol, or the second, or the
  first.
\<close>

definition midCode :: "string \<Rightarrow> char" where
  "midCode c = (if length c \<ge> 2 then c ! 1 else c ! 0)"

definition smallCode :: "string \<Rightarrow> char" where
  "smallCode c = (if length c \<ge> 3 then c ! 2 else if length c = 2 then c ! 1 else c ! 0)"

definition singleRootCode :: "string \<Rightarrow> string" where
  "singleRootCode c = [c ! 0, midCode c, midCode c, smallCode c]"

text \<open>
  A code is lower-cased when it holds no upper-case letter; it consists of lower-case
  letters when every byte is one of \<open>a..z\<close>.  The component codes of a map are ASCII
  (or letters) when every code in its range is.
\<close>

definition isLetter :: "char \<Rightarrow> bool" where
  "isLetter c = (isUpperByte c \<or> isLowerByte c)"

definition lowerCased :: "string \<Rightarrow> bool" where
  "lowerCased code = (\<forall>c \<in> set code. \<not> isUpperByte c)"

definition lowerLetters :: "string \<Rightarrow> bool" where
  "lowerLetters code = (\<forall>c \<in> set code. isLowerByte c)"

definition asciiCodes :: "(string \<rightharpoonup> string) \<Rightarrow> bool" where
  "asciiCodes m = (\<forall>v \<in> ran m. isASCII v)"

definition letterCodes :: "(string \<rightharpoonup> string) \<Rightarrow> bool" where
  "letterCodes m = (\<forall>v \<in> ran m. \<forall>c \<in> set v. isLetter c)"

text \<open>
  The two orders on \<open>CharMeta\<close> entries: code ascending, then frequency descending, then
  character ascending; and frequency descending, then code ascending, then character
  ascending.
\<close>

definition byCodeOrder :: "CharMeta \<Rightarrow> CharMeta \<Rightarrow> bool" where
  "byCodeOrder a b =
     (cm_Code a < cm_Code b \<or>
      (cm_Code a = cm_Code b \<and>
       (cm_Freq a > cm_Freq b \<or> (cm_Freq a = cm_Freq b \<and> cm_Char a \<le> cm_Char b))))"

definition byFreqOrder :: "CharMeta \<Rightarrow> CharMeta \<Rightarrow> bool" where
  "byFreqOrder a b =
     (cm_Freq a > cm_Freq b \<or>
      (cm_Freq a = cm_Freq b \<and>
       (cm_Code a < cm_Code b \<or> (cm_Code a = cm_Code b \<and> cm_Char a \<le> cm_Char b))))"

text \<open>
  The components whose codes \<open>calcFullCodeByDiv\<close> reads for the code of a decomposition:
  all of them up to arity 2, the first, second and last from arity 3 on.  Two component
  code maps agree at a list of components when they give each of them the same code.
\<close>

definition readComponents :: "string list \<Rightarrow> string list" where
  "readComponents dv =
     (if length dv = 0 then []
      else if length dv = 1 then [dv ! 0]
      else if length dv = 2 then [dv ! 0, dv ! 1]
      else [dv ! 0, dv ! 1, dv ! (length dv - 1)])"

definition sameCodesAt :: "string list \<Rightarrow> (string \<rightharpoonup> string) \<Rightarrow> (string \<rightharpoonup> string) \<Rightarrow> bool" where
  "sameCodesAt cs m m' = list_all (\<lambda>c. mget m' c = mget m c) cs"

text \<open>
  The word code of the specification, from the characters of the word and the map from a
  character to its full code: for two characters the first two symbols of each code, for
  three the first symbol of the first two codes and the first two symbols of the third,
  from four on the first symbol of the codes of the first, second, third and last
  character; no code when a code is missing or too short, nor for fewer than two
  characters.
\<close>

definition wordCodeSpec :: "string list \<Rightarrow> (string \<rightharpoonup> string) \<Rightarrow> string option" where
  "wordCodeSpec chars charCodeMap =
     (let c = (\<lambda>i. mget charCodeMap (chars ! i)); n = length chars in
      if n = 2 then
        (if length (c 0) \<ge> 2 \<and> length (c 1) \<ge> 2
         then Some [c 0 ! 0, c 0 ! 1, c 1 ! 0, c 1 ! 1] else None)
      else if n = 3 then
        (if length (c 0) \<ge> 1 \<and> length (c 1) \<ge> 1 \<and> length (c 2) \<ge> 2
         then Some [c 0 ! 0, c 1 ! 0, c 2 ! 0, c 2 ! 1] else None)
      else if n \<ge> 4 then
        (if length (c 0) \<ge> 1 \<and> length (c 1) \<ge> 1 \<and> length (c 2) \<ge> 1 \<and> length (c (n - 1)) \<ge> 1
         then Some [c 0 ! 0, c 1 ! 0, c 2 ! 0, c (n - 1) ! 0] else None)
      else None)"

definition wordCodeEntry :: "(string \<rightharpoonup> string) \<Rightarrow> WordEntry \<Rightarrow> WordCode list" where
  "wordCodeEntry charCodeMap entry =
     (case wordCodeSpec (runes (we_Word entry)) charCodeMap of
        None \<Rightarrow> []
      | Some code \<Rightarrow> [\<lparr>wc_Word = we_Word entry, wc_Code = code, wc_Weight = we_Weight entry\<rparr>])"

text \<open>
  The relation between an entry of the full-code list and the simplified entry made from
  it: the same character and frequency, a code that is not the full code.
\<close>

definition simplifiedFrom :: "CharMeta \<Rightarrow> CharMeta \<Rightarrow> bool" where
  "simplifiedFrom m e =
     (cm_Char e = cm_Char m \<and> cm_Freq e = cm_Freq m \<and> cm_Simp e \<and> cm_Code e \<noteq> cm_Code m)"

text \<open>Full codes are ASCII when every code of the list is.\<close>

definition asciiFullCodes :: "CharMeta list \<Rightarrow> bool" where
  "asciiFullCodes fullCodeList = (\<forall>m \<in> set fullCodeList. isASCII (cm_Code m))"

text \<open>The number of entries of a word simple-code list that carry a given code.\<close>

definition codeCount :: "string \<Rightarrow> WordSimpleCode list \<Rightarrow> nat" where
  "codeCount b entries = length (filter (\<lambda>e. ws_Code e = b) entries)"

text \<open>
  A base code, in the words of the specification: one to three keys of the fixed alphabet.
  The entries of a list that carry a given code, in the order of the list.  The
  placeholder tokens of a quota \<open>Q\<close>: the first \<open>Q\<close> circled digits up to \<open>Q = 10\<close>, and
  \<open>(1)\<close> to \<open>(Q)\<close> beyond, as \<open>generatePlaceholders\<close> lists them.
\<close>

definition isBaseCode :: "string \<Rightarrow> bool" where
  "isBaseCode b = (1 \<le> length b \<and> length b \<le> 3 \<and> list_all (\<lambda>c. [c] \<in> set keys) b)"

definition codeEntries :: "string \<Rightarrow> WordSimpleCode list \<Rightarrow> WordSimpleCode list" where
  "codeEntries b entries = filter (\<lambda>e. ws_Code e = b) entries"

definition placeholderTokens :: "int \<Rightarrow> string list" where
  "placeholderTokens Q =
     (if 1 \<le> Q \<and> Q \<le> 10 then take (nat Q) circled
      else map (\<lambda>i. ''('' @ showNat (i + 1) @ '')'') [0 ..< nat Q])"

text \<open>
  The disambiguator, in the words of the specification.  The group of a code is the list
  of the entries that carry it, each with its position in the input, in input order.  The
  output is suffixed by a code function \<open>nc\<close> when it has the length of the input, the
  only entry of a singleton group stands unchanged at its position, and every other group
  has an arrangement by frequency descending such that the entry at place \<open>i\<close> of the
  arrangement stands at its own position with the code \<open>nc c i\<close>.
\<close>

definition indexed :: "CitiEntry list \<Rightarrow> entryWithIndex list" where
  "indexed entries = zip entries [0 ..< length entries]"

definition groupOf :: "CitiEntry list \<Rightarrow> string \<Rightarrow> entryWithIndex list" where
  "groupOf entries c = filter (\<lambda>ew. ce_Code (fst ew) = c) (indexed entries)"

definition byFreqDesc :: "entryWithIndex list \<Rightarrow> bool" where
  "byFreqDesc s = sorted_wrt (\<lambda>a b. ce_Freq (fst a) \<ge> ce_Freq (fst b)) s"

definition suffixedBy :: "(string \<Rightarrow> nat \<Rightarrow> string) \<Rightarrow> CitiEntry list \<Rightarrow> CitiEntry list \<Rightarrow> bool" where
  "suffixedBy nc entries out =
     (length out = length entries \<and>
      (\<forall>c. (length (groupOf entries c) = 1 \<longrightarrow>
               out ! snd (groupOf entries c ! 0) = fst (groupOf entries c ! 0)) \<and>
           (length (groupOf entries c) \<noteq> 1 \<longrightarrow>
              (\<exists>s. mset s = mset (groupOf entries c) \<and> byFreqDesc s \<and>
                   (\<forall>i < length s. out ! snd (s ! i) = (fst (s ! i))\<lparr>ce_Code := nc c i\<rparr>)))))"

section \<open>Derived forms used in the proofs\<close>

text \<open>
  One round of the outer loop of \<open>BuildSimpleCodeList\<close> in two pieces: the candidate that
  the inner loop accepts for a code, and the record that is appended for it.
\<close>

definition simplifiedOf :: "quota \<Rightarrow> CharMeta list \<Rightarrow> string set \<Rightarrow> string \<Rightarrow> string" where
  "simplifiedOf lim res used code =
     trySimplify lim res used code (byteToString (code ! (length code - 1))) [0 ..< length code]"

definition simpEntry :: "CharMeta \<Rightarrow> string \<Rightarrow> CharMeta" where
  "simpEntry m s = \<lparr>cm_Char = cm_Char m, cm_Full = [], cm_Code = s, cm_Freq = cm_Freq m,
                     cm_MDiv = False, cm_Simp = True, cm_Division = None\<rparr>"

text \<open>
  The invariant of the allocation loop of \<open>BuildWordsSimpleCode\<close>: the counter of a base
  code, at the length of that code, is the number of entries allocated to it, and no
  allocated code has more entries than the quota of its length.
\<close>

definition allocInv :: "quota \<Rightarrow> WordSimpleCode list \<Rightarrow> counters \<Rightarrow> bool" where
  "allocInv lim res cc =
     ((\<forall>b. cc (length b) b = int (codeCount b res)) \<and>
      (\<forall>b. 0 < codeCount b res \<longrightarrow> int (codeCount b res) \<le> lim (length b)))"

text \<open>
  The invariant of \<open>buildGroups\<close>: the pairs built so far have distinct codes and hold,
  for every code, the group of that code among the entries read so far.
\<close>

definition groupsRep :: "(string \<times> entryWithIndex list) list \<Rightarrow> CitiEntry list \<Rightarrow> bool" where
  "groupsRep gs pre =
     (distinct (map fst gs) \<and>
      (\<forall>c. map_of gs c = (if groupOf pre c = [] then None else Some (groupOf pre c))))"

text \<open>The record that \<open>AddCandidateCodes\<close> builds for an entry and its new code.\<close>

definition recoded :: "CitiEntry \<Rightarrow> string \<Rightarrow> CitiEntry" where
  "recoded e c = \<lparr>ce_Text = ce_Text e, ce_Code = c, ce_Freq = ce_Freq e, ce_Source = ce_Source e\<rparr>"

text \<open>What one group writes into the result slice, \<open>srt\<close> sorting the group.\<close>

definition writeGroup ::
  "(entryWithIndex list \<Rightarrow> entryWithIndex list) \<Rightarrow> (string \<Rightarrow> nat \<Rightarrow> string) \<Rightarrow> string \<Rightarrow>
   entryWithIndex list \<Rightarrow> CitiEntry option list \<Rightarrow> CitiEntry option list" where
  "writeGroup srt nc code grp result =
     (if length grp = 1 then result[snd (grp ! 0) := Some (fst (grp ! 0))]
      else assignGroup nc code 0 (srt grp) result)"

definition written ::
  "(entryWithIndex list \<Rightarrow> entryWithIndex list) \<Rightarrow> (string \<Rightarrow> nat \<Rightarrow> string) \<Rightarrow> string \<Rightarrow>
   entryWithIndex list \<Rightarrow> CitiEntry option list \<Rightarrow> bool" where
  "written srt nc code grp result =
     ((length grp = 1 \<longrightarrow> result ! snd (grp ! 0) = Some (fst (grp ! 0))) \<and>
      (length grp \<noteq> 1 \<longrightarrow>
         (\<forall>i < length grp.
            result ! snd (srt grp ! i) = Some (recoded (fst (srt grp ! i)) (nc code i)))))"

text \<open>
  The entries that a group \<open>R\<close> of real entries with code \<open>b\<close> becomes when it is closed.
\<close>

definition padList :: "quota \<Rightarrow> string \<Rightarrow> WordSimpleCode list \<Rightarrow> WordSimpleCode list" where
  "padList lim b R =
     (if R = [] then []
      else if lim (length b) = 0 \<or> lim (length b) \<le> int (length R) then R
      else R @ placeholderEntries b (drop (length R) (placeholderTokens (lim (length b)))))"


section \<open>Auxiliary facts\<close>

subsection \<open>Slices and lookups\<close>

lemma slice_one: "i < length s \<Longrightarrow> slice s i (Suc i) = [s ! i]"
  by (simp add: slice_def take_Suc_conv_app_nth[of 0] Cons_nth_drop_Suc[symmetric])

lemma slice_0_1: "s \<noteq> [] \<Longrightarrow> slice s 0 (Suc 0) = [s ! 0]"
  using slice_one[of 0 s] by simp

lemma slice_1_2: "2 \<le> length s \<Longrightarrow> slice s (Suc 0) 2 = [s ! Suc 0]"
  using slice_one[of 1 s] by (simp add: numeral_2_eq_2)

lemma slice_2_3: "3 \<le> length s \<Longrightarrow> slice s 2 3 = [s ! 2]"
  using slice_one[of 2 s] by (simp add: numeral_3_eq_3)

lemma slice_prefix: "slice s 0 n = take n s"
  by (simp add: slice_def)

lemma mget_in_ran: "mget m k \<noteq> [] \<Longrightarrow> mget m k \<in> ran m"
  by (cases "m k") (auto simp: mget_def ran_def)

lemma nth_mget: "i < length (mget m k) \<Longrightarrow> \<exists>v \<in> ran m. mget m k ! i \<in> set v"
proof -
  assume a: "i < length (mget m k)"
  then have "mget m k \<noteq> []" by auto
  then have "mget m k \<in> ran m" by (rule mget_in_ran)
  moreover have "mget m k ! i \<in> set (mget m k)" using a by simp
  ultimately show ?thesis by blast
qed

lemma last_codes:
  assumes "c \<noteq> []"
  shows "(if length c \<ge> 2 then x @ slice c 1 2 else x @ slice c 0 1) = x @ [midCode c]"
    and "(if length c \<ge> 3 then x @ slice c 2 3
          else if length c = 2 then x @ slice c 1 2 else x @ slice c 0 1) = x @ [smallCode c]"
  using assms by (auto simp: midCode_def smallCode_def slice_0_1 slice_1_2 slice_2_3)

lemma midCode_in: "c \<noteq> [] \<Longrightarrow> midCode c \<in> set c"
  by (auto simp: midCode_def)

lemma smallCode_in: "c \<noteq> [] \<Longrightarrow> smallCode c \<in> set c"
  by (auto simp: smallCode_def)

subsection \<open>The three branches of calcFullCodeByDiv\<close>

lemma calc_arity1:
  assumes "length dv = 1"
  shows "calcFullCodeByDiv uni dv m =
     (if mget m (dv ! 0) = [] then Inr ([], [])
      else Inr (fullAnnot m 0 dv [],
                finishCode uni (singleRootCode (mget m (dv ! 0)))))"
  using assms
  by (simp add: calcFullCodeByDiv_def Let_def last_codes slice_0_1 singleRootCode_def)

lemma calc_arity2:
  assumes "length dv = 2"
  shows "calcFullCodeByDiv uni dv m =
     (if mget m (dv ! 0) = [] \<or> mget m (dv ! 1) = [] then Inr ([], [])
      else Inr (fullAnnot m 0 dv [],
                finishCode uni [mget m (dv ! 0) ! 0, mget m (dv ! 1) ! 0,
                                midCode (mget m (dv ! 0)), smallCode (mget m (dv ! 1))]))"
  using assms
  by (simp add: calcFullCodeByDiv_def Let_def last_codes slice_0_1)

lemma calc_arity3:
  assumes "length dv \<ge> 3"
  shows "calcFullCodeByDiv uni dv m =
     (if mget m (dv ! 0) = [] \<or> mget m (dv ! 1) = [] \<or> mget m (dv ! (length dv - 1)) = []
      then Inr ([], [])
      else Inr (fullAnnot m 0 dv [],
                finishCode uni [mget m (dv ! 0) ! 0, mget m (dv ! 1) ! 0,
                                mget m (dv ! (length dv - 1)) ! 0,
                                smallCode (mget m (dv ! (length dv - 1)))]))"
proof -
  from assms have "length dv \<noteq> 1" "length dv \<noteq> 2" "length dv \<noteq> 0" "dv \<noteq> []" by auto
  then show ?thesis
    by (simp add: calcFullCodeByDiv_def Let_def last_codes slice_0_1)
qed

lemma calc_arity0: "calcFullCodeByDiv uni [] m = Inl IndexOutOfRange"
  by (simp add: calcFullCodeByDiv_def)

subsection \<open>Lower-casing\<close>

lemma of_char_lowerByte:
  "isUpperByte c \<Longrightarrow> (of_char (lowerByte c) :: nat) = of_char c + 32"
  by (simp add: lowerByte_def isUpperByte_def)

lemma not_upper_lowerByte: "\<not> isUpperByte (lowerByte c)"
proof (cases "isUpperByte c")
  case True
  then show ?thesis using of_char_lowerByte[OF True] by (simp add: isUpperByte_def)
next
  case False
  then show ?thesis by (simp add: lowerByte_def)
qed

lemma lower_lowerByte: "isLetter c \<Longrightarrow> isLowerByte (lowerByte c)"
proof (cases "isUpperByte c")
  case True
  then show ?thesis using of_char_lowerByte[OF True] by (simp add: isUpperByte_def isLowerByte_def)
next
  case False
  assume "isLetter c"
  with False show ?thesis by (simp add: lowerByte_def isLetter_def)
qed

lemma finishCode_four:
  assumes "length raw = 4" "isASCII raw"
  shows "finishCode uni raw = map lowerByte raw"
  using assms by (simp add: finishCode_def ToLower_def)

lemma calcFullCodeByDiv_shape:
  assumes "calcFullCodeByDiv uni dv m = Inr (full, code)"
  shows "code = [] \<or> (\<exists>raw. code = finishCode uni raw \<and> length raw = 4 \<and>
                         (\<forall>c \<in> set raw. \<exists>v \<in> ran m. c \<in> set v))"
proof -
  have mid: "\<And>k. mget m k \<noteq> [] \<Longrightarrow> \<exists>v \<in> ran m. midCode (mget m k) \<in> set v"
    using midCode_in mget_in_ran by blast
  have small: "\<And>k. mget m k \<noteq> [] \<Longrightarrow> \<exists>v \<in> ran m. smallCode (mget m k) \<in> set v"
    using smallCode_in mget_in_ran by blast
  have first: "\<And>k. mget m k \<noteq> [] \<Longrightarrow> \<exists>v \<in> ran m. mget m k ! 0 \<in> set v"
    using nth_mget[of 0 m] by simp
  have "length dv = 1 \<or> length dv = 2 \<or> length dv = 0 \<or> length dv \<ge> 3" by linarith
  then consider "length dv = 1" | "length dv = 2" | "dv = []" | "length dv \<ge> 3"
    by auto
  then show ?thesis
  proof cases
    case 1
    with assms show ?thesis
      by (auto simp: calc_arity1 singleRootCode_def mid small first split: if_splits
               intro!: exI[where x="singleRootCode (mget m (dv ! 0))"])
  next
    case 2
    with assms show ?thesis
      by (auto simp: calc_arity2 mid small first split: if_splits
               intro!: exI[where x="[_, _, _, _]"])
  next
    case 3
    with assms show ?thesis by (simp add: calc_arity0)
  next
    case 4
    with assms show ?thesis
      by (auto simp: calc_arity3 mid small first split: if_splits
               intro!: exI[where x="[_, _, _, _]"])
  qed
qed


subsection \<open>sort.Slice\<close>

lemma mset_insertSlice: "mset (insertSlice lt x ys) = add_mset x (mset ys)"
  by (induction ys) auto

lemma mset_sortSlice: "mset (sortSlice lt xs) = mset xs"
  by (induction xs) (auto simp: sortSlice_def mset_insertSlice)

lemma set_sortSlice: "set (sortSlice lt xs) = set xs"
  using mset_sortSlice[of lt xs] by (metis set_mset_mset)

lemma length_sortSlice: "length (sortSlice lt xs) = length xs"
  using mset_sortSlice[of lt xs] by (metis size_mset)

lemma count_sortSlice: "length (filter P (sortSlice lt xs)) = length (filter P xs)"
proof -
  have "mset (filter P (sortSlice lt xs)) = mset (filter P xs)"
    by (simp only: mset_filter mset_sortSlice)
  then show ?thesis by (metis size_mset)
qed

lemma set_insertSlice: "set (insertSlice lt x ys) = insert x (set ys)"
  by (induction ys) auto

lemma sorted_insertSlice:
  assumes asym: "\<And>a b. lt a b \<Longrightarrow> \<not> lt b a"
      and ntrans: "\<And>a b c. \<not> lt b a \<Longrightarrow> \<not> lt c b \<Longrightarrow> \<not> lt c a"
      and "sorted_wrt (\<lambda>a b. \<not> lt b a) ys"
  shows "sorted_wrt (\<lambda>a b. \<not> lt b a) (insertSlice lt x ys)"
  using assms(3)
proof (induction ys)
  case Nil
  then show ?case by simp
next
  case (Cons y ys)
  show ?case
  proof (cases "lt y x")
    case True
    have "\<not> lt x y" using asym[OF True] .
    moreover have "\<forall>z \<in> set ys. \<not> lt z y" using Cons.prems by simp
    moreover have "sorted_wrt (\<lambda>a b. \<not> lt b a) (insertSlice lt x ys)"
      using Cons by simp
    ultimately show ?thesis using True by (simp add: set_insertSlice)
  next
    case False
    have "\<forall>z \<in> set ys. \<not> lt z x"
    proof
      fix z assume "z \<in> set ys"
      then have "\<not> lt z y" using Cons.prems by simp
      with False show "\<not> lt z x" using ntrans by blast
    qed
    then show ?thesis using False Cons.prems by simp
  qed
qed

lemma sorted_sortSlice:
  assumes asym: "\<And>a b. lt a b \<Longrightarrow> \<not> lt b a"
      and ntrans: "\<And>a b c. \<not> lt b a \<Longrightarrow> \<not> lt c b \<Longrightarrow> \<not> lt c a"
  shows "sorted_wrt (\<lambda>a b. \<not> lt b a) (sortSlice lt xs)"
proof (induction xs)
  case Nil
  then show ?case by (simp add: sortSlice_def)
next
  case (Cons x xs)
  have "sortSlice lt (x # xs) = insertSlice lt x (sortSlice lt xs)"
    by (simp add: sortSlice_def)
  then show ?case using sorted_insertSlice[of lt, OF asym ntrans Cons] by simp
qed

subsection \<open>Entries of the full-code list\<close>

lemma charEntries_codes:
  "charEntries uni m freqSet ch i ds = Inr es \<Longrightarrow> e \<in> set es \<Longrightarrow>
   \<exists>d \<in> set ds. \<exists>full. calcFullCodeByDiv uni (dv_Divs d) m = Inr (full, cm_Code e)"
proof (induction ds arbitrary: i es)
  case Nil
  then show ?case by simp
next
  case (Cons d ds)
  from Cons.prems(1) obtain full code rest where
    c: "calcFullCodeByDiv uni (dv_Divs d) m = Inr (full, code)" and
    r: "charEntries uni m freqSet ch (Suc i) ds = Inr rest" and
    es: "es = \<lparr>cm_Char = ch, cm_Full = full, cm_Code = code, cm_Freq = fget freqSet ch,
               cm_MDiv = (i = 0), cm_Simp = False, cm_Division = Some d\<rparr> # rest"
    by (auto split: sum.splits prod.splits)
  from Cons.prems(2) es consider "cm_Code e = code" | "e \<in> set rest" by auto
  then show ?case
  proof cases
    case 1
    with c show ?thesis by auto
  next
    case 2
    from Cons.IH[OF r 2] show ?thesis by auto
  qed
qed

lemma tableEntries_codes:
  "tableEntries uni m freqSet table = Inr es \<Longrightarrow> e \<in> set es \<Longrightarrow>
   \<exists>dv full. calcFullCodeByDiv uni dv m = Inr (full, cm_Code e)"
proof (induction table arbitrary: es)
  case Nil
  then show ?case by simp
next
  case (Cons p table)
  obtain ch divs where p: "p = (ch, divs)" by (cases p)
  from Cons.prems p obtain es1 es2 where
    1: "charEntries uni m freqSet ch 0 divs = Inr es1" and
    2: "tableEntries uni m freqSet table = Inr es2" and
    3: "es = es1 @ es2"
    by (auto split: sum.splits)
  from Cons.prems(2) 3 consider "e \<in> set es1" | "e \<in> set es2" by auto
  then show ?case
  proof cases
    case 1
    with charEntries_codes[OF \<open>charEntries uni m freqSet ch 0 divs = Inr es1\<close>] show ?thesis by blast
  next
    case 2
    with Cons.IH[OF \<open>tableEntries uni m freqSet table = Inr es2\<close>] show ?thesis by blast
  qed
qed

lemma calc_lowercase:
  assumes asc: "asciiCodes m"
      and res: "calcFullCodeByDiv uni dv m = Inr (full, code)"
  shows "length code \<le> 4 \<and> lowerCased code \<and> (letterCodes m \<longrightarrow> lowerLetters code)"
proof -
  from calcFullCodeByDiv_shape[OF res]
  consider "code = []"
    | raw where "code = finishCode uni raw" "length raw = 4" "\<forall>c \<in> set raw. \<exists>v \<in> ran m. c \<in> set v"
    by blast
  then show ?thesis
  proof cases
    case 1
    then show ?thesis by (simp add: lowerCased_def lowerLetters_def)
  next
    case 2
    have "isASCII raw"
      using 2(3) asc by (auto simp: isASCII_def asciiCodes_def)
    then have code: "code = map lowerByte raw"
      using 2 finishCode_four by simp
    have "letterCodes m \<Longrightarrow> \<forall>c \<in> set raw. isLetter c"
      using 2(3) by (auto simp: letterCodes_def)
    then show ?thesis
      using code 2(2) by (auto simp: lowerCased_def lowerLetters_def not_upper_lowerByte lower_lowerByte)
  qed
qed

subsection \<open>The comparison functions are orders\<close>

lemma lessByCode_iff: "\<not> lessByCode b a \<longleftrightarrow> byCodeOrder a b"
  by (auto simp: lessByCode_def byCodeOrder_def)

lemma lessByFreq_iff: "\<not> lessByFreq b a \<longleftrightarrow> byFreqOrder a b"
  by (auto simp: lessByFreq_def byFreqOrder_def)

lemma lessByCode_asym: "lessByCode a b \<Longrightarrow> \<not> lessByCode b a"
  by (auto simp: lessByCode_def split: if_splits)

lemma lessByFreq_asym: "lessByFreq a b \<Longrightarrow> \<not> lessByFreq b a"
  by (auto simp: lessByFreq_def split: if_splits)

lemma byCodeOrder_trans: "byCodeOrder a b \<Longrightarrow> byCodeOrder b c \<Longrightarrow> byCodeOrder a c"
  by (auto simp: byCodeOrder_def)

lemma byFreqOrder_trans: "byFreqOrder a b \<Longrightarrow> byFreqOrder b c \<Longrightarrow> byFreqOrder a c"
  by (auto simp: byFreqOrder_def)

lemma sorted_sortCharMetaByCode: "sorted_wrt byCodeOrder (sortCharMetaByCode xs)"
proof -
  have "sorted_wrt (\<lambda>a b. \<not> lessByCode b a) (sortSlice lessByCode xs)"
    by (rule sorted_sortSlice) (auto simp: lessByCode_asym lessByCode_iff intro: byCodeOrder_trans)
  then show ?thesis by (simp add: lessByCode_iff sortCharMetaByCode_def)
qed

lemma sorted_sortCharMetaByFreq: "sorted_wrt byFreqOrder (sortCharMetaByFreq xs)"
proof -
  have "sorted_wrt (\<lambda>a b. \<not> lessByFreq b a) (sortSlice lessByFreq xs)"
    by (rule sorted_sortSlice) (auto simp: lessByFreq_asym lessByFreq_iff intro: byFreqOrder_trans)
  then show ?thesis by (simp add: lessByFreq_iff sortCharMetaByFreq_def)
qed

subsection \<open>Decompositions with an empty component code\<close>

lemma calc_missing:
  assumes "dv \<noteq> []" "\<exists>c \<in> set (readComponents dv). mget m c = []"
  shows "calcFullCodeByDiv uni dv m = Inr ([], [])"
proof -
  have "length dv \<noteq> 0" using assms(1) by simp
  then have "length dv = 1 \<or> length dv = 2 \<or> length dv \<ge> 3" by linarith
  then consider "length dv = 1" | "length dv = 2" | "length dv \<ge> 3" by auto
  then show ?thesis
  proof cases
    case 1
    with assms(2) show ?thesis by (simp add: calc_arity1 readComponents_def)
  next
    case 2
    with assms(2) show ?thesis by (auto simp add: calc_arity2 readComponents_def)
  next
    case 3
    then have "length dv \<noteq> 1" "length dv \<noteq> 2" "dv \<noteq> []" by auto
    with 3 assms(2) show ?thesis by (auto simp add: calc_arity3 readComponents_def)
  qed
qed

lemma calc_total:
  assumes "dv \<noteq> []"
  shows "\<exists>full code. calcFullCodeByDiv uni dv m = Inr (full, code)"
proof -
  have "length dv \<noteq> 0" using assms(1) by simp
  then have "length dv = 1 \<or> length dv = 2 \<or> length dv \<ge> 3" by linarith
  then consider "length dv = 1" | "length dv = 2" | "length dv \<ge> 3" by auto
  then show ?thesis
  proof cases
    case 1
    then show ?thesis by (simp add: calc_arity1)
  next
    case 2
    then show ?thesis by (simp add: calc_arity2)
  next
    case 3
    then show ?thesis by (simp add: calc_arity3)
  qed
qed

lemma charEntries_total:
  "\<forall>d \<in> set ds. dv_Divs d \<noteq> [] \<Longrightarrow> \<exists>es. charEntries uni m freqSet ch i ds = Inr es"
proof (induction ds arbitrary: i)
  case Nil
  then show ?case by simp
next
  case (Cons d ds)
  from Cons.prems have "dv_Divs d \<noteq> []" by simp
  from calc_total[OF this] obtain full code where
    c: "calcFullCodeByDiv uni (dv_Divs d) m = Inr (full, code)" by blast
  from Cons.IH[of "Suc i"] Cons.prems obtain rest where
    "charEntries uni m freqSet ch (Suc i) ds = Inr rest" by auto
  with c show ?case by simp
qed

lemma tableEntries_total:
  "\<forall>(ch, divs) \<in> set table. \<forall>d \<in> set divs. dv_Divs d \<noteq> [] \<Longrightarrow>
   \<exists>es. tableEntries uni m freqSet table = Inr es"
proof (induction table)
  case Nil
  then show ?case by simp
next
  case (Cons p table)
  obtain ch divs where p: "p = (ch, divs)" by (cases p)
  from Cons.prems p have "\<forall>d \<in> set divs. dv_Divs d \<noteq> []" by auto
  from charEntries_total[OF this] obtain es1 where
    "charEntries uni m freqSet ch 0 divs = Inr es1" by blast
  moreover from Cons obtain es2 where "tableEntries uni m freqSet table = Inr es2" by auto
  ultimately show ?case using p by simp
qed

lemma charEntries_keeps:
  "charEntries uni m freqSet ch i ds = Inr es \<Longrightarrow> d \<in> set ds \<Longrightarrow>
   \<exists>e \<in> set es. cm_Char e = ch \<and> cm_Division e = Some d \<and>
                  calcFullCodeByDiv uni (dv_Divs d) m = Inr (cm_Full e, cm_Code e)"
proof (induction ds arbitrary: i es)
  case Nil
  then show ?case by simp
next
  case (Cons d' ds)
  from Cons.prems(1) obtain full code rest where
    c: "calcFullCodeByDiv uni (dv_Divs d') m = Inr (full, code)" and
    r: "charEntries uni m freqSet ch (Suc i) ds = Inr rest" and
    es: "es = \<lparr>cm_Char = ch, cm_Full = full, cm_Code = code, cm_Freq = fget freqSet ch,
               cm_MDiv = (i = 0), cm_Simp = False, cm_Division = Some d'\<rparr> # rest"
    by (auto split: sum.splits prod.splits)
  from Cons.prems(2) consider "d = d'" | "d \<in> set ds" by auto
  then show ?case
  proof cases
    case 1
    with c es show ?thesis by simp
  next
    case 2
    from Cons.IH[OF r 2] es show ?thesis by auto
  qed
qed

lemma tableEntries_keeps:
  "tableEntries uni m freqSet table = Inr es \<Longrightarrow> (ch, divs) \<in> set table \<Longrightarrow> d \<in> set divs \<Longrightarrow>
   \<exists>e \<in> set es. cm_Char e = ch \<and> cm_Division e = Some d \<and>
                  calcFullCodeByDiv uni (dv_Divs d) m = Inr (cm_Full e, cm_Code e)"
proof (induction table arbitrary: es)
  case Nil
  then show ?case by simp
next
  case (Cons p table)
  obtain ch' divs' where p: "p = (ch', divs')" by (cases p)
  from Cons.prems(1) p obtain es1 es2 where
    1: "charEntries uni m freqSet ch' 0 divs' = Inr es1" and
    2: "tableEntries uni m freqSet table = Inr es2" and
    3: "es = es1 @ es2"
    by (auto split: sum.splits)
  from Cons.prems(2) p consider "ch = ch' \<and> divs = divs'" | "(ch, divs) \<in> set table" by auto
  then show ?case
  proof cases
    case 1
    with charEntries_keeps[OF \<open>charEntries uni m freqSet ch' 0 divs' = Inr es1\<close>, of d] Cons.prems(3) 3
    show ?thesis by auto
  next
    case 2
    from Cons.IH[OF \<open>tableEntries uni m freqSet table = Inr es2\<close> 2 Cons.prems(3)] 3
    show ?thesis by auto
  qed
qed

subsection \<open>Word codes\<close>

lemma take_two: "2 \<le> length s \<Longrightarrow> take 2 s = [s ! 0, s ! 1]"
  by (cases s; cases "tl s") auto

lemma take_one: "Suc 0 \<le> length s \<Longrightarrow> take (Suc 0) s = [s ! 0]"
  by (cases s) auto

lemma slice_first: "Suc 0 \<le> length s \<Longrightarrow> slice s 0 (Suc 0) = [s ! 0]"
  by (simp add: slice_def take_one)

lemma slice_first2: "2 \<le> length s \<Longrightarrow> slice s 0 2 = [s ! 0, s ! 1]"
  by (simp add: slice_def take_two)

lemma wordFullCode_spec:
  "wordFullCode chars charCodeMap =
     (case wordCodeSpec chars charCodeMap of None \<Rightarrow> [] | Some code \<Rightarrow> code)"
  by (simp add: wordFullCode_def wordCodeSpec_def Let_def slice_first slice_first2)

lemma wordCodeSpec_nonempty: "wordCodeSpec chars charCodeMap = Some code \<Longrightarrow> code \<noteq> []"
  by (auto simp: wordCodeSpec_def Let_def split: if_splits)

subsection \<open>The single-character simplifier\<close>

lemma trySimplify_Cons:
  "trySimplify lim res used code lastc (i # rest) =
     (if lim (i + 1) = 0 then trySimplify lim res used code lastc rest
      else if int (samePrefixCount res (targetLength (i + 1)) (slice code 0 (i + 1))) \<ge> lim (i + 1)
      then trySimplify lim res used code lastc rest
      else if (if i + 1 \<le> 2 then slice code 0 (i + 1) @ lastc else slice code 0 (i + 1)) \<notin> used
      then (if i + 1 \<le> 2 then slice code 0 (i + 1) @ lastc else slice code 0 (i + 1))
      else trySimplify lim res used code lastc rest)"
  by (simp only: trySimplify.simps Let_def)

declare trySimplify.simps(2) [simp del]

lemma trySimplify_accepts:
  "trySimplify lim res used code lastc is = s \<Longrightarrow> s \<noteq> [] \<Longrightarrow>
   \<exists>i \<in> set is. lim (i + 1) \<noteq> 0 \<and>
     int (samePrefixCount res (targetLength (i + 1)) (slice code 0 (i + 1))) < lim (i + 1) \<and>
     s = (if i + 1 \<le> 2 then slice code 0 (i + 1) @ lastc else slice code 0 (i + 1)) \<and>
     s \<notin> used"
proof (induction "is")
  case Nil
  then show ?case by simp
next
  case (Cons i rest)
  define cand where
    "cand = (if i + 1 \<le> 2 then slice code 0 (i + 1) @ lastc else slice code 0 (i + 1))"
  define c1 where "c1 = (lim (i + 1) = 0)"
  define c2 where
    "c2 = (int (samePrefixCount res (targetLength (i + 1)) (slice code 0 (i + 1))) \<ge> lim (i + 1))"
  define R where "R = trySimplify lim res used code lastc rest"
  have eq: "trySimplify lim res used code lastc (i # rest) =
     (if c1 then R else if c2 then R else if cand \<notin> used then cand else R)"
    unfolding cand_def c1_def c2_def R_def by (rule trySimplify_Cons)
  show ?case
  proof (cases "c1 \<or> c2 \<or> cand \<in> used")
    case True
    with eq have "trySimplify lim res used code lastc (i # rest) = R" by auto
    with Cons.prems(1) have "trySimplify lim res used code lastc rest = s" by (simp add: R_def)
    from Cons.IH[OF this Cons.prems(2)] show ?thesis by auto
  next
    case False
    with eq have "trySimplify lim res used code lastc (i # rest) = cand" by auto
    with Cons.prems(1) have s: "s = cand" by simp
    from False have "\<not> c1" "\<not> c2" "cand \<notin> used" by auto
    then have "lim (i + 1) \<noteq> 0"
      "int (samePrefixCount res (targetLength (i + 1)) (slice code 0 (i + 1))) < lim (i + 1)"
      unfolding c1_def c2_def by simp_all
    moreover have "s = (if i + 1 \<le> 2 then slice code 0 (i + 1) @ lastc else slice code 0 (i + 1))"
      using s unfolding cand_def .
    moreover have "s \<notin> used" using s \<open>cand \<notin> used\<close> by simp
    ultimately show ?thesis by (intro bexI[where x=i]) simp_all
  qed
qed

lemma simplifiedOf_accepts:
  assumes "s = simplifiedOf lim res used code" "s \<noteq> []"
  shows "\<exists>j. 1 \<le> j \<and> j \<le> length code \<and> 0 < lim j \<and>
     int (samePrefixCount res (targetLength j) (take j code)) < lim j \<and>
     s = (if j \<le> 2 then take j code @ byteToString (code ! (length code - 1)) else take j code) \<and>
     s \<notin> used"
proof -
  from trySimplify_accepts[OF assms(1)[unfolded simplifiedOf_def, symmetric] assms(2)]
  obtain i where i: "i \<in> set [0 ..< length code]" "lim (i + 1) \<noteq> 0"
     "int (samePrefixCount res (targetLength (i + 1)) (slice code 0 (i + 1))) < lim (i + 1)"
     "s = (if i + 1 \<le> 2 then slice code 0 (i + 1) @ byteToString (code ! (length code - 1))
           else slice code 0 (i + 1))" "s \<notin> used"
    by blast
  have pos: "0 < lim (i + 1)" using i(3) by linarith
  have le: "i + 1 \<le> length code" using i(1) by simp
  show ?thesis
  proof (intro exI[where x="i + 1"] conjI)
    show "1 \<le> i + 1" by simp
    show "i + 1 \<le> length code" by (rule le)
    show "0 < lim (i + 1)" by (rule pos)
    show "int (samePrefixCount res (targetLength (i + 1)) (take (i + 1) code)) < lim (i + 1)"
      using i(3) by (simp only: slice_prefix)
    show "s = (if i + 1 \<le> 2 then take (i + 1) code @ byteToString (code ! (length code - 1))
               else take (i + 1) code)"
      using i(4) by (simp only: slice_prefix)
    show "s \<notin> used" by (rule i(5))
  qed
qed

lemma simplifyLoop_Cons:
  "simplifyLoop lim ns (m # rest) res used =
     (if cm_Char m \<in> ns then simplifyLoop lim ns rest res used
      else if cm_Code m = [] then Inl IndexOutOfRange
      else
        (let s = simplifiedOf lim res used (cm_Code m) in
         simplifyLoop lim ns rest
           (if s \<noteq> [] \<and> s \<noteq> cm_Code m then res @ [simpEntry m s] else res)
           (if s \<noteq> [] then insert s used else used)))"
  by (simp add: Let_def simplifiedOf_def simpEntry_def)

declare simplifyLoop.simps(2) [simp del]

lemma simplifyLoop_skip:
  "cm_Char m \<in> ns \<Longrightarrow>
   simplifyLoop lim ns (m # rest) res used = simplifyLoop lim ns rest res used"
  by (simp add: simplifyLoop_Cons)

lemma simplifyLoop_panic:
  "cm_Char m \<notin> ns \<Longrightarrow> cm_Code m = [] \<Longrightarrow>
   simplifyLoop lim ns (m # rest) res used = Inl IndexOutOfRange"
  by (simp add: simplifyLoop_Cons)

lemma simplifyLoop_none:
  "cm_Char m \<notin> ns \<Longrightarrow> cm_Code m \<noteq> [] \<Longrightarrow> simplifiedOf lim res used (cm_Code m) = [] \<Longrightarrow>
   simplifyLoop lim ns (m # rest) res used = simplifyLoop lim ns rest res used"
  by (simp add: simplifyLoop_Cons Let_def)

lemma simplifyLoop_some:
  "cm_Char m \<notin> ns \<Longrightarrow> cm_Code m \<noteq> [] \<Longrightarrow> s = simplifiedOf lim res used (cm_Code m) \<Longrightarrow>
   s \<noteq> [] \<Longrightarrow>
   simplifyLoop lim ns (m # rest) res used =
     simplifyLoop lim ns rest (if s \<noteq> cm_Code m then res @ [simpEntry m s] else res)
       (insert s used)"
  by (simp add: simplifyLoop_Cons Let_def)

text \<open>An invariant of the outer loop: \<open>pre\<close> is the part of the list already processed.\<close>

lemma simplifyLoop_invariant:
  assumes run: "simplifyLoop lim ns xs res used = Inr out"
      and init: "P pre res used"
      and skip: "\<And>pre m res used. P pre res used \<Longrightarrow> m \<in> set xs \<Longrightarrow> P (pre @ [m]) res used"
      and step: "\<And>pre m res used s. P pre res used \<Longrightarrow> m \<in> set xs \<Longrightarrow> cm_Code m \<noteq> [] \<Longrightarrow>
                   s = simplifiedOf lim res used (cm_Code m) \<Longrightarrow> s \<noteq> [] \<Longrightarrow>
                   P (pre @ [m]) (if s \<noteq> cm_Code m then res @ [simpEntry m s] else res)
                     (insert s used)"
  shows "\<exists>used'. P (pre @ xs) out used'"
  using run init skip step
proof (induction xs arbitrary: pre res used)
  case Nil
  from Nil.prems(1) have "out = res" by simp
  with Nil.prems(2) have "P (pre @ []) out used" by simp
  then show ?case by (rule exI)
next
  case (Cons m rest)
  have skip': "P pre' res' used' \<Longrightarrow> m' \<in> set rest \<Longrightarrow> P (pre' @ [m']) res' used'"
    for pre' m' res' used'
  proof -
    assume a: "P pre' res' used'" "m' \<in> set rest"
    from a(2) have "m' \<in> set (m # rest)" by simp
    from Cons.prems(3)[OF a(1) this] show ?thesis .
  qed
  have step': "P pre' res' used' \<Longrightarrow> m' \<in> set rest \<Longrightarrow> cm_Code m' \<noteq> [] \<Longrightarrow>
                 s' = simplifiedOf lim res' used' (cm_Code m') \<Longrightarrow> s' \<noteq> [] \<Longrightarrow>
                 P (pre' @ [m']) (if s' \<noteq> cm_Code m' then res' @ [simpEntry m' s'] else res')
                   (insert s' used')"
    for pre' m' res' used' s'
  proof -
    assume a: "P pre' res' used'" "m' \<in> set rest" "cm_Code m' \<noteq> []"
       "s' = simplifiedOf lim res' used' (cm_Code m')" "s' \<noteq> []"
    from a(2) have "m' \<in> set (m # rest)" by simp
    from Cons.prems(4)[OF a(1) this a(3) a(4) a(5)] show ?thesis .
  qed
  have mem: "m \<in> set (m # rest)" by simp
  have app: "(pre @ [m]) @ rest = pre @ m # rest" by simp
  have here: "P (pre @ [m]) res used" by (rule Cons.prems(3)[OF Cons.prems(2) mem])
  show ?case
  proof (cases "cm_Char m \<in> ns")
    case True
    from Cons.prems(1) have "simplifyLoop lim ns rest res used = Inr out"
      by (simp only: simplifyLoop_skip[OF True])
    from this here have "\<exists>used'. P ((pre @ [m]) @ rest) out used'"
      by (rule Cons.IH) (erule (1) skip', erule (4) step')
    then show ?thesis by (simp only: app)
  next
    case False
    have ne: "cm_Code m \<noteq> []"
    proof
      assume "cm_Code m = []"
      from Cons.prems(1) show False
        by (simp only: simplifyLoop_panic[OF False \<open>cm_Code m = []\<close>]) simp
    qed
    define s where "s = simplifiedOf lim res used (cm_Code m)"
    show ?thesis
    proof (cases "s = []")
      case True
      then have "simplifiedOf lim res used (cm_Code m) = []" by (simp only: s_def)
      from Cons.prems(1) have "simplifyLoop lim ns rest res used = Inr out"
        by (simp only: simplifyLoop_none[OF False ne \<open>simplifiedOf lim res used (cm_Code m) = []\<close>])
      from this here have "\<exists>used'. P ((pre @ [m]) @ rest) out used'"
        by (rule Cons.IH) (erule (1) skip', erule (4) step')
      then show ?thesis by (simp only: app)
    next
      case nonempty: False
      define res' where "res' = (if s \<noteq> cm_Code m then res @ [simpEntry m s] else res)"
      from Cons.prems(1)
      have run': "simplifyLoop lim ns rest res' (insert s used) = Inr out"
        unfolding res'_def by (simp only: simplifyLoop_some[OF False ne s_def nonempty])
      have "P (pre @ [m]) res' (insert s used)"
        unfolding res'_def by (rule Cons.prems(4)[OF Cons.prems(2) mem ne s_def nonempty])
      with run' have "\<exists>used'. P ((pre @ [m]) @ rest) out used'"
        by (rule Cons.IH) (erule (1) skip', erule (4) step')
      then show ?thesis by (simp only: app)
    qed
  qed
qed

subsection \<open>Distinct codes\<close>

lemma simplifyLoop_distinct:
  assumes "simplifyLoop lim ns xs [] {} = Inr out"
  shows "distinct (map cm_Code out)"
proof -
  have "\<exists>used'. (\<lambda>pre res used. distinct (map cm_Code res) \<and> cm_Code ` set res \<subseteq> used)
                  ([] @ xs) out used'"
  proof (rule simplifyLoop_invariant[where
           P = "\<lambda>pre res used. distinct (map cm_Code res) \<and> cm_Code ` set res \<subseteq> used",
           OF assms], goal_cases)
    case 1
    then show ?case by simp
  next
    case (2 pre m res used)
    then show ?case by simp
  next
    case (3 pre m res used s)
    from simplifiedOf_accepts[OF 3(4,5)] have "s \<notin> used" by blast
    with 3(1) show ?case by (auto simp: simpEntry_def)
  qed
  then show ?thesis by blast
qed

subsection \<open>Origins\<close>

lemma subseq_mset: "subseq xs ys \<Longrightarrow> mset xs \<subseteq># mset ys"
proof (induction rule: list_emb.induct)
  case (list_emb_Nil ys)
  then show ?case by simp
next
  case (list_emb_Cons xs ys y)
  have "mset ys \<subseteq># mset (y # ys)" by simp
  with list_emb_Cons.IH show ?case by (rule subset_mset.order_trans)
next
  case (list_emb_Cons2 x y xs ys)
  then show ?case by simp
qed

lemma simplifyLoop_origins:
  assumes "simplifyLoop lim ns xs [] {} = Inr out"
  shows "\<exists>origins. subseq origins xs \<and> list_all2 simplifiedFrom origins out"
proof -
  have "\<exists>used'. (\<lambda>pre res (used :: string set). \<exists>origins. subseq origins pre \<and> list_all2 simplifiedFrom origins res)
                  ([] @ xs) out used'"
  proof (rule simplifyLoop_invariant[where
           P = "\<lambda>pre res (used :: string set). \<exists>origins. subseq origins pre \<and> list_all2 simplifiedFrom origins res",
           OF assms], goal_cases)
    case 1
    then show ?case by simp
  next
    case (2 pre m res used)
    then obtain origins where "subseq origins pre" "list_all2 simplifiedFrom origins res" by blast
    then show ?case using subseq_rev_drop_many by blast
  next
    case (3 pre m res used s)
    then obtain origins where o: "subseq origins pre" "list_all2 simplifiedFrom origins res" by blast
    show ?case
    proof (cases "s = cm_Code m")
      case True
      with o show ?thesis using subseq_rev_drop_many by auto
    next
      case False
      have a: "subseq (origins @ [m]) (pre @ [m])" using o(1) by simp
      have b: "list_all2 simplifiedFrom (origins @ [m]) (res @ [simpEntry m s])"
        using o(2) False by (simp add: list_all2_appendI simplifiedFrom_def simpEntry_def)
      from a b have "\<exists>origins'. subseq origins' (pre @ [m]) \<and>
                      list_all2 simplifiedFrom origins' (res @ [simpEntry m s])" by blast
      then show ?thesis using False by simp
    qed
  qed
  then show ?thesis by simp
qed



subsection \<open>Buckets\<close>

lemma samePrefixCount_snoc:
  "samePrefixCount (res @ [e]) t p =
     samePrefixCount res t p + (if length (cm_Code e) = t \<and> HasPrefix (cm_Code e) p then 1 else 0)"
  by (simp add: samePrefixCount_def)

lemma length_byteToString: "1 \<le> length (byteToString c)" "length (byteToString c) \<le> 2"
  by (simp_all add: byteToString_def)

lemma byteToString_ascii:
  assumes "isASCII code" "code \<noteq> []"
  shows "length (byteToString (code ! (length code - 1))) = 1"
proof -
  have "code ! (length code - 1) \<in> set code" using assms(2) by simp
  then have "(of_char (code ! (length code - 1)) :: nat) < 128"
    using assms(1) by (simp add: isASCII_def)
  then show ?thesis by (simp add: byteToString_def)
qed

text \<open>
  The bucket of prefix length 1, and that of prefix length 2 when prefix length 3 has no
  quota and the code is ASCII, grow only after the count was found below the quota.
\<close>

lemma bucket_step:
  assumes s: "s = simplifiedOf lim res used code" "s \<noteq> []"
      and inv: "int (samePrefixCount res (targetLength i) p) \<le> lim i"
      and p: "length p = i"
      and cond: "i = 1 \<or> (i = 2 \<and> lim 3 \<le> 0 \<and> isASCII code)"
      and ne: "code \<noteq> []"
  shows "int (samePrefixCount (res @ [simpEntry m s]) (targetLength i) p) \<le> lim i"
proof (cases "length s = targetLength i \<and> HasPrefix s p")
  case False
  with inv show ?thesis by (auto simp: samePrefixCount_snoc simpEntry_def)
next
  case True
  from simplifiedOf_accepts[OF s] obtain j where j: "1 \<le> j" "j \<le> length code" "0 < lim j"
     "int (samePrefixCount res (targetLength j) (take j code)) < lim j"
     "s = (if j \<le> 2 then take j code @ byteToString (code ! (length code - 1)) else take j code)"
    by blast
  let ?lastc = "byteToString (code ! (length code - 1))"
  have len: "length s = (if j \<le> 2 then j + length ?lastc else j)"
    using j(2,5) by simp
  have pre: "take j s = take j code" using j(2,5) by simp
  have ji: "j = i"
  proof -
    from cond show ?thesis
    proof
      assume i: "i = 1"
      with True have "length s = 2" by (simp add: targetLength_def)
      with len length_byteToString(1)[of "code ! (length code - 1)"] j(1) show ?thesis
        using i by (auto split: if_splits)
    next
      assume i: "i = 2 \<and> lim 3 \<le> 0 \<and> isASCII code"
      with True have l3: "length s = 3" by (simp add: targetLength_def)
      have l1: "length ?lastc = 1" using byteToString_ascii i ne by blast
      have "j \<noteq> 3" using j(3) i by auto
      with len l3 l1 j(1) show ?thesis using i by (auto split: if_splits)
    qed
  qed
  have "p = take i s" using True p by (auto simp: HasPrefix_def)
  with pre ji have "p = take j code" by simp
  with j(4) ji have "int (samePrefixCount res (targetLength i) p) < lim i" by simp
  then show ?thesis by (simp add: samePrefixCount_snoc simpEntry_def)
qed

lemma simplifyLoop_bucket:
  assumes run: "simplifyLoop lim ns xs [] {} = Inr out"
      and q: "0 < lim i"
      and p: "length p = i"
      and cond: "i = 1 \<or> (i = 2 \<and> lim 3 \<le> 0 \<and> (\<forall>m \<in> set xs. isASCII (cm_Code m)))"
  shows "int (samePrefixCount out (targetLength i) p) \<le> lim i"
proof -
  have "\<exists>used'. (\<lambda>pre res (used :: string set). int (samePrefixCount res (targetLength i) p) \<le> lim i)
                  ([] @ xs) out used'"
  proof (rule simplifyLoop_invariant[where
           P = "\<lambda>pre res (used :: string set). int (samePrefixCount res (targetLength i) p) \<le> lim i",
           OF run], goal_cases)
    case 1
    then show ?case using q by (simp add: samePrefixCount_def)
  next
    case (2 pre m res used)
    then show ?case by simp
  next
    case (3 pre m res used s)
    have c: "i = 1 \<or> (i = 2 \<and> lim 3 \<le> 0 \<and> isASCII (cm_Code m))"
      using cond 3(2) by auto
    from bucket_step[OF 3(4,5) 3(1) p c 3(3)] 3(1) show ?case by simp
  qed
  then show ?thesis by simp
qed

text \<open>Every simplified code has at least two bytes.\<close>

lemma simplifyLoop_lengths:
  assumes run: "simplifyLoop lim ns xs [] {} = Inr out"
  shows "\<forall>e \<in> set out. 2 \<le> length (cm_Code e)"
proof -
  have "\<exists>used'. (\<lambda>pre res (used :: string set). \<forall>e \<in> set res. 2 \<le> length (cm_Code e))
                  ([] @ xs) out used'"
  proof (rule simplifyLoop_invariant[where
           P = "\<lambda>pre res (used :: string set). \<forall>e \<in> set res. 2 \<le> length (cm_Code e)",
           OF run], goal_cases)
    case 1
    then show ?case by simp
  next
    case (2 pre m res used)
    then show ?case by simp
  next
    case (3 pre m res used s)
    from simplifiedOf_accepts[OF 3(4,5)] obtain j where j: "1 \<le> j" "j \<le> length (cm_Code m)"
     "s = (if j \<le> 2 then take j (cm_Code m) @ byteToString (cm_Code m ! (length (cm_Code m) - 1))
           else take j (cm_Code m))"
      by blast
    have "2 \<le> length s"
      using j length_byteToString(1)[of "cm_Code m ! (length (cm_Code m) - 1)"]
      by (auto split: if_splits)
    with 3(1) show ?case by (auto simp: simpEntry_def)
  qed
  then show ?thesis by simp
qed

lemma distinct_count_le_one:
  "distinct (map f xs) \<Longrightarrow> length (filter (\<lambda>x. f x = v) xs) \<le> 1"
proof (induction xs)
  case Nil
  then show ?case by simp
next
  case (Cons x xs)
  from Cons.prems have d: "distinct (map f xs)" and nin: "f x \<notin> f ` set xs" by simp_all
  show ?case
  proof (cases "f x = v")
    case True
    have "\<forall>y \<in> set xs. f y \<noteq> v"
    proof
      fix y assume "y \<in> set xs"
      then have "f y \<in> f ` set xs" by (rule imageI)
      with nin True show "f y \<noteq> v" by metis
    qed
    then have "filter (\<lambda>x. f x = v) xs = []" by (simp add: filter_empty_conv)
    with True show ?thesis by simp
  next
    case False
    with Cons.IH[OF d] show ?thesis by simp
  qed
qed

lemma exact_bucket:
  assumes "length p = t"
  shows "samePrefixCount res t p = length (filter (\<lambda>e. cm_Code e = p) res)"
proof -
  have "\<And>c. (length c = t \<and> HasPrefix c p) = (c = p)"
    using assms by (auto simp: HasPrefix_def)
  then show ?thesis by (simp add: samePrefixCount_def)
qed

lemma simplifyLoop_quota:
  assumes run: "simplifyLoop lim ns xs [] {} = Inr out"
      and q: "0 < lim i"
      and p: "length p = i"
      and cond: "i \<noteq> 2 \<or> (lim 3 \<le> 0 \<and> (\<forall>m \<in> set xs. isASCII (cm_Code m)))"
  shows "int (samePrefixCount out (targetLength i) p) \<le> lim i"
proof -
  consider "i = 0" | "i = 1" | "i = 2" | "i \<ge> 3" by linarith
  then show ?thesis
  proof cases
    case 1
    have "samePrefixCount out (targetLength i) p = 0"
      using simplifyLoop_lengths[OF run] 1
      by (auto simp: samePrefixCount_def targetLength_def filter_empty_conv)
    with q show ?thesis by simp
  next
    case 2
    then show ?thesis using simplifyLoop_bucket[OF run q p] by simp
  next
    case 3
    then show ?thesis using simplifyLoop_bucket[OF run q p] cond by simp
  next
    case 4
    then have t: "targetLength i = i" by (simp add: targetLength_def)
    have "samePrefixCount out i p \<le> 1"
      using exact_bucket[OF p] distinct_count_le_one[OF simplifyLoop_distinct[OF run]] by simp
    with q t show ?thesis by simp
  qed
qed

subsection \<open>The word simplifier\<close>

lemma baseCodeAt_length: "baseCodeAt lim code wl L = Some b \<Longrightarrow> length b = L"
proof -
  assume a: "baseCodeAt lim code wl L = Some b"
  show ?thesis
  proof (cases "L = 2 \<and> wl = 2")
    case True
    with a have "length code \<ge> 3" "b = slice code 0 1 @ slice code 2 3"
      by (auto simp: baseCodeAt_def split: if_splits)
    with True show ?thesis by (simp add: slice_def)
  next
    case False
    with a have "length code \<ge> L" "b = slice code 0 L"
      by (auto simp: baseCodeAt_def split: if_splits)
    then show ?thesis by (simp add: slice_def)
  qed
qed

lemma tryLengths_accepts:
  "tryLengths lim cc code wl Ls = Some (L, b) \<Longrightarrow> length b = L \<and> cc L b < lim L"
proof (induction Ls)
  case Nil
  then show ?case by simp
next
  case (Cons L' Ls)
  show ?case
  proof (cases "baseCodeAt lim code wl L'")
    case None
    with Cons.prems have "tryLengths lim cc code wl Ls = Some (L, b)" by simp
    then show ?thesis by (rule Cons.IH)
  next
    case (Some base)
    show ?thesis
    proof (cases "cc L' base < lim L'")
      case True
      with Some Cons.prems have "L = L'" "b = base" by (simp_all add: Let_def)
      with True baseCodeAt_length[OF Some] show ?thesis by simp
    next
      case False
      with Some Cons.prems have "tryLengths lim cc code wl Ls = Some (L, b)"
        by (simp add: Let_def)
      then show ?thesis by (rule Cons.IH)
    qed
  qed
qed

lemma codeCount_snoc:
  "codeCount b (res @ [e]) = codeCount b res + (if ws_Code e = b then 1 else 0)"
  by (simp add: codeCount_def)

lemma allocInv_step:
  assumes inv: "allocInv lim res cc" and lb: "length base = L" "cc L base < lim L"
  shows "allocInv lim (res @ [\<lparr>ws_Word = w, ws_Code = base, ws_Weight = wt\<rparr>])
           (cc(L := (cc L)(base := cc L base + 1)))"
  unfolding allocInv_def
proof (intro conjI allI impI)
  fix b
  from inv have c: "cc (length b) b = int (codeCount b res)"
    and q: "0 < codeCount b res \<Longrightarrow> int (codeCount b res) \<le> lim (length b)"
    by (simp_all add: allocInv_def)
  show "(cc(L := (cc L)(base := cc L base + 1))) (length b) b =
        int (codeCount b (res @ [\<lparr>ws_Word = w, ws_Code = base, ws_Weight = wt\<rparr>]))"
  proof (cases "b = base")
    case True
    with c lb(1) show ?thesis by (simp add: codeCount_snoc)
  next
    case False
    with c show ?thesis by (auto simp: codeCount_snoc)
  qed
  assume "0 < codeCount b (res @ [\<lparr>ws_Word = w, ws_Code = base, ws_Weight = wt\<rparr>])"
  then show "int (codeCount b (res @ [\<lparr>ws_Word = w, ws_Code = base, ws_Weight = wt\<rparr>]))
             \<le> lim (length b)"
  proof (cases "b = base")
    case True
    from inv have "cc (length base) base = int (codeCount base res)" by (simp add: allocInv_def)
    with lb have "int (codeCount base res) < lim (length base)" by simp
    with True show ?thesis by (simp add: codeCount_snoc)
  next
    case False
    assume "0 < codeCount b (res @ [\<lparr>ws_Word = w, ws_Code = base, ws_Weight = wt\<rparr>])"
    with False have "0 < codeCount b res" by (simp add: codeCount_snoc)
    from q[OF this] False show ?thesis by (simp add: codeCount_snoc)
  qed
qed

lemma allocLoop_inv:
  "allocInv lim res cc \<Longrightarrow> \<exists>cc'. allocInv lim (allocLoop lim xs res cc) cc'"
proof (induction xs arbitrary: res cc)
  case Nil
  then show ?case by auto
next
  case (Cons x xs)
  show ?case
  proof (cases "tryLengths lim cc (wc_Code x) (length (runes (wc_Word x))) [1, 2, 3]")
    case None
    have eq: "allocLoop lim (x # xs) res cc = allocLoop lim xs res cc"
      by (simp only: allocLoop.simps Let_def None option.case)
    from Cons.IH[OF Cons.prems] show ?thesis by (simp only: eq)
  next
    case (Some a)
    obtain L base where a: "a = (L, base)" by (cases a)
    from tryLengths_accepts[OF Some[unfolded a]] have lb: "length base = L" "cc L base < lim L"
      by simp_all
    have eq: "allocLoop lim (x # xs) res cc =
        allocLoop lim xs (res @ [\<lparr>ws_Word = wc_Word x, ws_Code = base, ws_Weight = wc_Weight x\<rparr>])
          (cc(L := (cc L)(base := cc L base + 1)))"
      by (simp only: allocLoop.simps Let_def Some a option.case prod.case)
    have "\<exists>cc'. allocInv lim
        (allocLoop lim xs (res @ [\<lparr>ws_Word = wc_Word x, ws_Code = base, ws_Weight = wc_Weight x\<rparr>])
          (cc(L := (cc L)(base := cc L base + 1)))) cc'"
      by (rule Cons.IH[OF allocInv_step[OF Cons.prems lb]])
    then show ?thesis by (simp only: eq)
  qed
qed

lemma allocWords_counts:
  assumes "0 < codeCount b (allocWords wordCodes lim)"
  shows "int (codeCount b (allocWords wordCodes lim)) \<le> lim (length b)"
proof -
  have "allocInv lim [] (\<lambda>codeLength baseCode. 0)"
    by (simp add: allocInv_def codeCount_def)
  from allocLoop_inv[OF this] obtain cc' where
    "allocInv lim (allocWords wordCodes lim) cc'"
    unfolding allocWords_def by blast
  with assms show ?thesis by (simp add: allocInv_def)
qed

subsection \<open>The placeholder back-fill\<close>

lemma isPlaceholder_False: "isPlaceholder word = False"
proof -
  have "(of_char (word ! 0) :: nat) < 256" by (rule nat_of_char_less_256)
  then have "\<not> (9312 \<le> (of_char (word ! 0) :: nat))" by linarith
  then show ?thesis by (simp add: isPlaceholder_def)
qed

lemma lessSimpleCode_code: "lessSimpleCode a b \<Longrightarrow> ws_Code a \<le> ws_Code b"
  by (cases "ws_Code a = ws_Code b") (simp_all add: lessSimpleCode_def)

lemma not_lessSimpleCode_code: "\<not> lessSimpleCode a b \<Longrightarrow> ws_Code b \<le> ws_Code a"
  by (cases "ws_Code a = ws_Code b") (simp_all add: lessSimpleCode_def)

lemma insertSlice_sorted_key:
  assumes lt: "\<And>a b. lt a b \<Longrightarrow> k a \<le> (k b :: 'k :: linorder)"
      and nlt: "\<And>a b. \<not> lt a b \<Longrightarrow> k b \<le> k a"
      and srt: "sorted_wrt (\<lambda>a b. k a \<le> k b) ys"
  shows "sorted_wrt (\<lambda>a b. k a \<le> k b) (insertSlice lt x ys)"
  using srt
proof (induction ys)
  case Nil
  then show ?case by simp
next
  case (Cons y ys)
  show ?case
  proof (cases "lt y x")
    case True
    have tl: "sorted_wrt (\<lambda>a b. k a \<le> k b) (insertSlice lt x ys)"
      using Cons by simp
    have hd: "\<forall>z \<in> set (insertSlice lt x ys). k y \<le> k z"
      using Cons.prems lt[OF True] by (simp add: set_insertSlice)
    from True tl hd show ?thesis by simp
  next
    case False
    have xy: "k x \<le> k y" by (rule nlt[OF False])
    have "\<forall>z \<in> set ys. k x \<le> k z"
    proof
      fix z assume "z \<in> set ys"
      with Cons.prems have "k y \<le> k z" by simp
      with xy show "k x \<le> k z" by (rule order_trans)
    qed
    with False xy Cons.prems show ?thesis by simp
  qed
qed

lemma sortSlice_sorted_key:
  assumes lt: "\<And>a b. lt a b \<Longrightarrow> k a \<le> (k b :: 'k :: linorder)"
      and nlt: "\<And>a b. \<not> lt a b \<Longrightarrow> k b \<le> k a"
  shows "sorted_wrt (\<lambda>a b. k a \<le> k b) (sortSlice lt xs)"
proof (induction xs)
  case Nil
  then show ?case by (simp add: sortSlice_def)
next
  case (Cons x xs)
  have "sortSlice lt (x # xs) = insertSlice lt x (sortSlice lt xs)"
    by (simp add: sortSlice_def)
  with insertSlice_sorted_key[where lt = lt and k = k, OF lt nlt Cons] show ?case by simp
qed

lemma SortWordSimpleCodes_sorted:
  "sorted_wrt (\<lambda>a b. ws_Code a \<le> ws_Code b) (SortWordSimpleCodes xs)"
  unfolding SortWordSimpleCodes_def
  by (rule sortSlice_sorted_key[where k = ws_Code, OF lessSimpleCode_code not_lessSimpleCode_code])

lemma SortWordSimpleCodes_count: "codeCount b (SortWordSimpleCodes xs) = codeCount b xs"
  by (simp add: codeCount_def SortWordSimpleCodes_def count_sortSlice)

lemma length_circled: "length circled = 10"
  by (simp add: circled_def)

lemma length_placeholderTokens: "length (placeholderTokens Q) = nat Q"
  by (auto simp: placeholderTokens_def length_circled)

lemma generatePlaceholders_tokens:
  assumes "0 \<le> n" "n < Q"
  shows "generatePlaceholders (n + 1) (Q - n) Q = Inr (drop (nat n) (placeholderTokens Q))"
proof -
  have len: "int (length (placeholderTokens Q)) = Q"
    using assms by (simp add: length_placeholderTokens)
  have "generatePlaceholders (n + 1) (Q - n) Q =
        Inr (take (nat (Q - n)) (drop (nat n) (placeholderTokens Q)))"
    using assms len unfolding generatePlaceholders_def placeholderTokens_def[symmetric] Let_def
    by simp
  moreover have "length (drop (nat n) (placeholderTokens Q)) = nat (Q - n)"
    using assms by (simp add: length_placeholderTokens)
  ultimately show ?thesis by simp
qed

lemma generatePlaceholders_full: "generatePlaceholders 1 Q Q = Inr (placeholderTokens Q)"
proof (cases "0 < Q")
  case True
  from generatePlaceholders_tokens[of 0 Q] True show ?thesis by simp
next
  case False
  then show ?thesis by (simp add: generatePlaceholders_def placeholderTokens_def)
qed

lemma codeCount_codeEntries: "codeCount b xs = length (codeEntries b xs)"
  by (simp add: codeCount_def codeEntries_def)

lemma codeEntries_append: "codeEntries b (xs @ ys) = codeEntries b xs @ codeEntries b ys"
  by (simp add: codeEntries_def)

lemma codeEntries_placeholderEntries:
  "codeEntries b (placeholderEntries c phs) = (if b = c then placeholderEntries c phs else [])"
  by (induction phs) (simp_all add: codeEntries_def placeholderEntries_def)

lemma codeEntries_all:
  "\<forall>e \<in> set grp. ws_Code e = c \<Longrightarrow> codeEntries b grp = (if b = c then grp else [])"
  by (induction grp) (simp_all add: codeEntries_def)

lemma codeEntries_above:
  assumes "\<forall>x \<in> set xs. c < ws_Code x"
  shows "codeEntries c xs = []"
  using assms by (induction xs) (auto simp: codeEntries_def)

lemma padList_Nil: "padList lim b [] = []"
  by (simp add: padList_def)

lemma closeGroup_entries:
  assumes same: "\<forall>e \<in> set grp. ws_Code e = c"
  shows "\<exists>r. closeGroup result grp lim = Inr r \<and>
           (\<forall>b. codeEntries b r = codeEntries b result @ (if b = c then padList lim b grp else []))"
proof (cases "grp = []")
  case True
  then show ?thesis by (simp add: closeGroup_def padList_Nil)
next
  case False
  then have "grp ! 0 \<in> set grp" by simp
  with same have c: "ws_Code (grp ! 0) = c" by blast
  have ent: "\<And>b. codeEntries b grp = (if b = c then grp else [])"
    by (rule codeEntries_all[OF same])
  define Q where "Q = lim (length c)"
  consider (zero) "Q = 0" | (pad) "Q \<noteq> 0" "int (length grp) < Q"
    | (full) "Q \<noteq> 0" "\<not> int (length grp) < Q"
    by blast
  then show ?thesis
  proof cases
    case zero
    then have "closeGroup result grp lim = Inr (result @ grp)"
      using False c by (simp add: closeGroup_def appendGroupPlaceholders_def Q_def)
    moreover have "\<forall>b. codeEntries b (result @ grp) =
        codeEntries b result @ (if b = c then padList lim b grp else [])"
      using zero False by (simp add: codeEntries_append ent padList_def Q_def)
    ultimately show ?thesis by blast
  next
    case full
    then have "closeGroup result grp lim = Inr (result @ grp)"
      using False c by (simp add: closeGroup_def appendGroupPlaceholders_def Q_def)
    moreover have "\<forall>b. codeEntries b (result @ grp) =
        codeEntries b result @ (if b = c then padList lim b grp else [])"
      using full False by (simp add: codeEntries_append ent padList_def Q_def)
    ultimately show ?thesis by blast
  next
    case pad
    from generatePlaceholders_tokens[of "int (length grp)" Q] pad have
      phs: "generatePlaceholders (int (length grp) + 1) (Q - int (length grp)) Q =
            Inr (drop (length grp) (placeholderTokens Q))"
      by simp
    define phs where "phs = drop (length grp) (placeholderTokens Q)"
    have "closeGroup result grp lim = Inr ((result @ grp) @ placeholderEntries c phs)"
      using False c pad phs
      by (simp add: closeGroup_def appendGroupPlaceholders_def Q_def[symmetric] phs_def)
    moreover have "\<forall>b. codeEntries b ((result @ grp) @ placeholderEntries c phs) =
        codeEntries b result @ (if b = c then padList lim b grp else [])"
    proof
      fix b
      show "codeEntries b ((result @ grp) @ placeholderEntries c phs) =
        codeEntries b result @ (if b = c then padList lim b grp else [])"
      proof (cases "b = c")
        case True
        have "padList lim c grp = grp @ placeholderEntries c phs"
          using pad False by (simp add: padList_def Q_def phs_def)
        then show ?thesis
          using True by (simp add: codeEntries_append ent codeEntries_placeholderEntries)
      next
        case False
        then show ?thesis by (simp add: codeEntries_append ent codeEntries_placeholderEntries)
      qed
    qed
    ultimately show ?thesis by blast
  qed
qed

lemma groupLoop_entries:
  assumes "sorted_wrt (\<lambda>a b. ws_Code a \<le> ws_Code b) xs"
      and "\<forall>e \<in> set grp. ws_Code e = cur"
      and "grp = [] \<or> (\<forall>x \<in> set xs. cur \<le> ws_Code x)"
  shows "\<exists>G. groupLoop lim xs result grp cur = Inr G \<and>
           (\<forall>b. codeEntries b G = codeEntries b result @ padList lim b (codeEntries b (grp @ xs)))"
  using assms
proof (induction xs arbitrary: result grp cur)
  case Nil
  from closeGroup_entries[OF Nil(2), of result lim] obtain r where
    r: "closeGroup result grp lim = Inr r"
       "\<And>b. codeEntries b r = codeEntries b result @ (if b = cur then padList lim b grp else [])"
    by blast
  have "\<forall>b. codeEntries b r = codeEntries b result @ padList lim b (codeEntries b (grp @ []))"
    by (simp add: r(2) codeEntries_all[OF Nil(2)] padList_Nil)
  with r(1) show ?case by simp
next
  case (Cons item rest)
  have srt: "sorted_wrt (\<lambda>a b. ws_Code a \<le> ws_Code b) rest"
    and ge: "\<forall>x \<in> set rest. ws_Code item \<le> ws_Code x"
    using Cons.prems(1) by simp_all
  show ?case
  proof (cases "ws_Code item = cur")
    case True
    have same: "\<forall>e \<in> set (grp @ [item]). ws_Code e = cur"
      using Cons.prems(2) True by simp
    have "grp @ [item] = [] \<or> (\<forall>x \<in> set rest. cur \<le> ws_Code x)"
      using ge True by simp
    from Cons.IH[OF srt same this, of result] obtain G where
      G: "groupLoop lim rest result (grp @ [item]) cur = Inr G"
         "\<forall>b. codeEntries b G =
            codeEntries b result @ padList lim b (codeEntries b ((grp @ [item]) @ rest))"
      by blast
    have "groupLoop lim (item # rest) result grp cur = Inr G"
      using True G(1) by simp
    with G(2) show ?thesis by simp
  next
    case False
    from closeGroup_entries[OF Cons.prems(2), of result lim] obtain r where
      r: "closeGroup result grp lim = Inr r"
         "\<And>b. codeEntries b r =
            codeEntries b result @ (if b = cur then padList lim b grp else [])"
      by blast
    have same: "\<forall>e \<in> set [item]. ws_Code e = ws_Code item" by simp
    have "[item] = [] \<or> (\<forall>x \<in> set rest. ws_Code item \<le> ws_Code x)"
      using ge by simp
    from Cons.IH[OF srt same this, of r] obtain G where
      G: "groupLoop lim rest r [item] (ws_Code item) = Inr G"
         "\<And>b. codeEntries b G = codeEntries b r @ padList lim b (codeEntries b ([item] @ rest))"
      by blast
    have run: "groupLoop lim (item # rest) result grp cur = Inr G"
      using False G(1) r(1) by simp
    have "\<forall>b. codeEntries b G =
            codeEntries b result @ padList lim b (codeEntries b (grp @ item # rest))"
    proof
      fix b
      show "codeEntries b G =
            codeEntries b result @ padList lim b (codeEntries b (grp @ item # rest))"
      proof (cases "b = cur \<and> grp \<noteq> []")
        case True
        with Cons.prems(3) have "\<forall>x \<in> set (item # rest). cur \<le> ws_Code x" by blast
        then have "cur \<le> ws_Code item" by simp
        with False have lt: "cur < ws_Code item" by simp
        have "\<forall>x \<in> set (item # rest). cur < ws_Code x"
        proof
          fix x assume "x \<in> set (item # rest)"
          then consider "x = item" | "x \<in> set rest" by auto
          then show "cur < ws_Code x"
          proof cases
            case 1
            with lt show ?thesis by simp
          next
            case 2
            with ge have "ws_Code item \<le> ws_Code x" by blast
            with lt show ?thesis by (rule less_le_trans)
          qed
        qed
        then have z: "codeEntries cur (item # rest) = []" by (rule codeEntries_above)
        have "codeEntries b G = codeEntries b result @ padList lim b grp"
          using True z by (simp add: G(2) r(2) padList_Nil)
        moreover have "codeEntries b (grp @ item # rest) = grp"
          using True z by (simp add: codeEntries_append codeEntries_all[OF Cons.prems(2)])
        ultimately show ?thesis by simp
      next
        case False
        then have "codeEntries b grp = [] \<and> (if b = cur then padList lim b grp else []) = []"
          by (auto simp: codeEntries_all[OF Cons.prems(2)] padList_Nil)
        then show ?thesis by (simp add: G(2) r(2) codeEntries_append)
      qed
    qed
    with run show ?thesis by blast
  qed
qed

lemma hasActualWord_entries: "hasActualWord xs b = (codeEntries b xs \<noteq> [])"
  by (induction xs) (simp_all add: hasActualWord_def codeEntries_def isPlaceholder_False)

lemma fillBaseCodes_entries:
  assumes "distinct bases"
  shows "\<exists>r. fillBaseCodes wsc Q bases result = Inr r \<and>
           codeEntries b r = codeEntries b result @
             (if b \<in> set bases \<and> codeEntries b wsc = []
              then placeholderEntries b (placeholderTokens Q) else [])"
  using assms
proof (induction bases arbitrary: result)
  case Nil
  then show ?case by simp
next
  case (Cons base rest)
  have d: "distinct rest" and nin: "base \<notin> set rest" using Cons.prems by simp_all
  show ?case
  proof (cases "hasActualWord wsc base")
    case True
    from Cons.IH[OF d, of result] obtain r where
      r: "fillBaseCodes wsc Q rest result = Inr r"
         "codeEntries b r = codeEntries b result @
            (if b \<in> set rest \<and> codeEntries b wsc = []
             then placeholderEntries b (placeholderTokens Q) else [])"
      by blast
    have "fillBaseCodes wsc Q (base # rest) result = Inr r"
      using True r(1) by simp
    moreover have "codeEntries b r = codeEntries b result @
        (if b \<in> set (base # rest) \<and> codeEntries b wsc = []
         then placeholderEntries b (placeholderTokens Q) else [])"
      using True r(2) by (auto simp: hasActualWord_entries)
    ultimately show ?thesis by blast
  next
    case False
    define result' where "result' = result @ placeholderEntries base (placeholderTokens Q)"
    from Cons.IH[OF d, of result'] obtain r where
      r: "fillBaseCodes wsc Q rest result' = Inr r"
         "codeEntries b r = codeEntries b result' @
            (if b \<in> set rest \<and> codeEntries b wsc = []
             then placeholderEntries b (placeholderTokens Q) else [])"
      by blast
    have "fillBaseCodes wsc Q (base # rest) result = Inr r"
      using False r(1) by (simp add: generatePlaceholders_full result'_def)
    moreover have "codeEntries b r = codeEntries b result @
        (if b \<in> set (base # rest) \<and> codeEntries b wsc = []
         then placeholderEntries b (placeholderTokens Q) else [])"
    proof (cases "b = base")
      case True
      with nin have "b \<notin> set rest" by simp
      moreover from False True have "codeEntries b wsc = []"
        by (simp add: hasActualWord_entries)
      ultimately show ?thesis
        using True r(2)
        by (simp add: result'_def codeEntries_append codeEntries_placeholderEntries)
    next
      case neq: False
      then show ?thesis
        using r(2) by (simp add: result'_def codeEntries_append codeEntries_placeholderEntries)
    qed
    ultimately show ?thesis by blast
  qed
qed

lemma keys_length: "k \<in> set keys \<Longrightarrow> length k = 1"
  by (auto simp: keys_def)

lemma distinct_keys: "distinct keys"
  by (simp add: keys_def)

lemma prefixed_mem:
  "(u \<in> set (concat (map (\<lambda>f. map (\<lambda>s. f @ s) B) A))) = (\<exists>f \<in> set A. \<exists>s \<in> set B. u = f @ s)"
  by auto

lemma distinct_prefixed:
  assumes "distinct A" "distinct B" "\<forall>f \<in> set A. length f = n"
  shows "distinct (concat (map (\<lambda>f. map (\<lambda>s. f @ s) B) A))"
  using assms(1,3)
proof (induction A)
  case Nil
  then show ?case by simp
next
  case (Cons f A)
  have tl: "distinct (concat (map (\<lambda>f. map (\<lambda>s. f @ s) B) A))"
    using Cons by simp
  have hd: "distinct (map (\<lambda>s. f @ s) B)"
    using assms(2) by (simp add: distinct_map inj_on_def)
  have dis: "set (map (\<lambda>s. f @ s) B) \<inter> set (concat (map (\<lambda>f. map (\<lambda>s. f @ s) B) A)) = {}"
  proof (rule ccontr)
    assume "\<not> ?thesis"
    then obtain u where u: "u \<in> set (map (\<lambda>s. f @ s) B)"
        "u \<in> set (concat (map (\<lambda>f. map (\<lambda>s. f @ s) B) A))"
      by blast
    from u(1) obtain s where s: "u = f @ s" by auto
    from u(2) obtain g t where g: "g \<in> set A" "u = g @ t"
      unfolding prefixed_mem by blast
    from g(1) Cons.prems have "length g = length f" by simp
    with s g(2) have "g = f" by simp
    with g(1) Cons.prems(1) show False by simp
  qed
  have "concat (map (\<lambda>f. map (\<lambda>s. f @ s) B) (f # A)) =
        map (\<lambda>s. f @ s) B @ concat (map (\<lambda>f. map (\<lambda>s. f @ s) B) A)"
    by simp
  with tl hd dis show ?case by (simp only: distinct_append)
qed

lemma codes3:
  "concat (map (\<lambda>first. concat (map (\<lambda>second.
      map (\<lambda>third. first @ second @ third) K) K)) K) =
   concat (map (\<lambda>first. map (\<lambda>u. first @ u)
      (concat (map (\<lambda>second. map (\<lambda>third. second @ third) K) K))) K)"
  by (simp add: map_concat o_def)

lemma distinct_generateAllBaseCodes: "distinct (generateAllBaseCodes L)"
proof -
  have k: "\<forall>f \<in> set keys. length f = 1" using keys_length by blast
  have two: "distinct (concat (map (\<lambda>first. map (\<lambda>second. first @ second) keys) keys))"
    by (rule distinct_prefixed[OF distinct_keys distinct_keys k])
  have three: "distinct (concat (map (\<lambda>first. concat (map (\<lambda>second.
      map (\<lambda>third. first @ second @ third) keys) keys)) keys))"
    unfolding codes3 by (rule distinct_prefixed[OF distinct_keys two k])
  show ?thesis
    unfolding generateAllBaseCodes_def using distinct_keys two three by simp
qed

lemma generateAllBaseCodes_2:
  "generateAllBaseCodes 2 = concat (map (\<lambda>f. map (\<lambda>s. f @ s) keys) keys)"
  by (simp add: generateAllBaseCodes_def)

lemma generateAllBaseCodes_3:
  "generateAllBaseCodes 3 =
     concat (map (\<lambda>first. map (\<lambda>u. first @ u)
       (concat (map (\<lambda>second. map (\<lambda>third. second @ third) keys) keys))) keys)"
proof -
  have "generateAllBaseCodes 3 =
     concat (map (\<lambda>first. concat (map (\<lambda>second.
       map (\<lambda>third. first @ second @ third) keys) keys)) keys)"
    by (simp add: generateAllBaseCodes_def)
  then show ?thesis by (simp only: codes3)
qed

lemma generateAllBaseCodes_length:
  assumes "b \<in> set (generateAllBaseCodes L)"
  shows "length b = L"
proof -
  consider (one) "L = 1" | (two) "L = 2" | (three) "L = 3" | (other) "L \<noteq> 1" "L \<noteq> 2" "L \<noteq> 3"
    by blast
  then show ?thesis
  proof cases
    case one
    with assms have "b \<in> set keys" by (simp add: generateAllBaseCodes_def)
    with one show ?thesis by (simp add: keys_length)
  next
    case two
    with assms have "b \<in> set (concat (map (\<lambda>f. map (\<lambda>s. f @ s) keys) keys))"
      by (simp only: generateAllBaseCodes_2)
    then have "\<exists>f \<in> set keys. \<exists>s \<in> set keys. b = f @ s"
      by (rule prefixed_mem[THEN iffD1])
    then obtain f s where "f \<in> set keys" "s \<in> set keys" "b = f @ s"
      by blast
    with two show ?thesis by (simp add: keys_length)
  next
    case three
    with assms have "b \<in> set (concat (map (\<lambda>first. map (\<lambda>u. first @ u)
        (concat (map (\<lambda>second. map (\<lambda>third. second @ third) keys) keys))) keys))"
      by (simp only: generateAllBaseCodes_3)
    then have "\<exists>f \<in> set keys.
        \<exists>u \<in> set (concat (map (\<lambda>second. map (\<lambda>third. second @ third) keys) keys)).
          b = f @ u"
      by (rule prefixed_mem[THEN iffD1])
    then obtain f u where f: "f \<in> set keys"
        and u: "u \<in> set (concat (map (\<lambda>second. map (\<lambda>third. second @ third) keys) keys))"
        and b: "b = f @ u"
      by blast
    from u have "\<exists>s \<in> set keys. \<exists>t \<in> set keys. u = s @ t"
      by (rule prefixed_mem[THEN iffD1])
    then obtain s t where "s \<in> set keys" "t \<in> set keys" "u = s @ t"
      by blast
    with f b three show ?thesis by (simp add: keys_length)
  next
    case other
    with assms show ?thesis by (simp add: generateAllBaseCodes_def)
  qed
qed

lemma list_of_length_2: "length xs = 2 \<Longrightarrow> \<exists>c d. xs = [c, d]"
proof -
  assume l: "length xs = 2"
  then obtain c ys where xs: "xs = c # ys" by (cases xs) auto
  with l have "length ys = 1" by simp
  then obtain d where "ys = [d]" by (cases ys) auto
  with xs show ?thesis by blast
qed

lemma list_of_length_3: "length xs = 3 \<Longrightarrow> \<exists>c d e. xs = [c, d, e]"
proof -
  assume l: "length xs = 3"
  then obtain c ys where xs: "xs = c # ys" by (cases xs) auto
  with l have "length ys = 2" by simp
  from list_of_length_2[OF this] xs show ?thesis by auto
qed

lemma isBaseCode_generated:
  assumes "isBaseCode b"
  shows "b \<in> set (generateAllBaseCodes (length b))"
proof -
  from assms have len: "1 \<le> length b" "length b \<le> 3"
    and all: "\<forall>c \<in> set b. [c] \<in> set keys"
    by (simp_all add: isBaseCode_def list_all_iff)
  from len consider (one) "length b = 1" | (two) "length b = 2" | (three) "length b = 3"
    by linarith
  then show ?thesis
  proof cases
    case one
    then obtain c where b: "b = [c]" by (cases b) auto
    with all have "[c] \<in> set keys" by simp
    with b show ?thesis by (simp add: generateAllBaseCodes_def)
  next
    case two
    from list_of_length_2[OF two] obtain c d where b: "b = [c, d]" by blast
    with all have k: "[c] \<in> set keys" "[d] \<in> set keys" by simp_all
    have "[c, d] = [c] @ [d]" by simp
    with k have "[c, d] \<in> set (concat (map (\<lambda>f. map (\<lambda>s. f @ s) keys) keys))"
      unfolding prefixed_mem by blast
    then have "b \<in> set (generateAllBaseCodes 2)"
      by (simp only: generateAllBaseCodes_2 b)
    then show ?thesis by (simp only: two)
  next
    case three
    from list_of_length_3[OF three] obtain c d e where b: "b = [c, d, e]" by blast
    with all have k: "[c] \<in> set keys" "[d] \<in> set keys" "[e] \<in> set keys" by simp_all
    have "[d, e] = [d] @ [e]" by simp
    with k have de: "[d, e] \<in> set (concat (map (\<lambda>f. map (\<lambda>s. f @ s) keys) keys))"
      unfolding prefixed_mem by blast
    have "[c, d, e] = [c] @ [d, e]" by simp
    with k(1) de have "\<exists>f \<in> set keys.
        \<exists>u \<in> set (concat (map (\<lambda>second. map (\<lambda>third. second @ third) keys) keys)).
          [c, d, e] = f @ u"
      by blast
    then have "[c, d, e] \<in> set (concat (map (\<lambda>first. map (\<lambda>u. first @ u)
        (concat (map (\<lambda>second. map (\<lambda>third. second @ third) keys) keys))) keys))"
      by (rule prefixed_mem[THEN iffD2])
    then have "b \<in> set (generateAllBaseCodes 3)"
      by (simp only: generateAllBaseCodes_3 b)
    then show ?thesis by (simp only: three)
  qed
qed

lemma fillLengths_entries:
  assumes "distinct Ls"
  shows "\<exists>r. fillLengths wsc lim Ls result = Inr r \<and>
           codeEntries b r = codeEntries b result @
             (if length b \<in> set Ls \<and> lim (length b) \<noteq> 0 \<and>
                 b \<in> set (generateAllBaseCodes (length b)) \<and> codeEntries b wsc = []
              then placeholderEntries b (placeholderTokens (lim (length b))) else [])"
  using assms
proof (induction Ls arbitrary: result)
  case Nil
  then show ?case by simp
next
  case (Cons L rest)
  have d: "distinct rest" and nin: "L \<notin> set rest" using Cons.prems by simp_all
  show ?case
  proof (cases "lim L = 0")
    case True
    from Cons.IH[OF d, of result] obtain r where
      r: "fillLengths wsc lim rest result = Inr r"
         "codeEntries b r = codeEntries b result @
            (if length b \<in> set rest \<and> lim (length b) \<noteq> 0 \<and>
                b \<in> set (generateAllBaseCodes (length b)) \<and> codeEntries b wsc = []
             then placeholderEntries b (placeholderTokens (lim (length b))) else [])"
      by blast
    have "fillLengths wsc lim (L # rest) result = Inr r"
      using True r(1) by simp
    moreover have "codeEntries b r = codeEntries b result @
        (if length b \<in> set (L # rest) \<and> lim (length b) \<noteq> 0 \<and>
            b \<in> set (generateAllBaseCodes (length b)) \<and> codeEntries b wsc = []
         then placeholderEntries b (placeholderTokens (lim (length b))) else [])"
      using True r(2) by auto
    ultimately show ?thesis by blast
  next
    case False
    from fillBaseCodes_entries[OF distinct_generateAllBaseCodes, of wsc "lim L" L result b]
    obtain r1 where
      r1: "fillBaseCodes wsc (lim L) (generateAllBaseCodes L) result = Inr r1"
          "codeEntries b r1 = codeEntries b result @
             (if b \<in> set (generateAllBaseCodes L) \<and> codeEntries b wsc = []
              then placeholderEntries b (placeholderTokens (lim L)) else [])"
      by blast
    from Cons.IH[OF d, of r1] obtain r where
      r: "fillLengths wsc lim rest r1 = Inr r"
         "codeEntries b r = codeEntries b r1 @
            (if length b \<in> set rest \<and> lim (length b) \<noteq> 0 \<and>
                b \<in> set (generateAllBaseCodes (length b)) \<and> codeEntries b wsc = []
             then placeholderEntries b (placeholderTokens (lim (length b))) else [])"
      by blast
    have run: "fillLengths wsc lim (L # rest) result = Inr r"
      using False r(1) r1(1) by simp
    have "codeEntries b r = codeEntries b result @
        (if length b \<in> set (L # rest) \<and> lim (length b) \<noteq> 0 \<and>
            b \<in> set (generateAllBaseCodes (length b)) \<and> codeEntries b wsc = []
         then placeholderEntries b (placeholderTokens (lim (length b))) else [])"
    proof (cases "length b = L")
      case True
      with nin have "length b \<notin> set rest" by simp
      with True False show ?thesis by (simp add: r(2) r1(2))
    next
      case neq: False
      then have "b \<notin> set (generateAllBaseCodes L)"
        using generateAllBaseCodes_length by blast
      with neq show ?thesis by (simp add: r(2) r1(2))
    qed
    with run show ?thesis by blast
  qed
qed

lemma backfill_entries:
  assumes q: "0 < lim (length b)" and base: "b \<in> set (generateAllBaseCodes (length b))"
  shows "\<exists>out. BuildWordsSimpleCode_backfill wordCodes lim = Inr out \<and>
           codeEntries b out =
             codeEntries b (SortWordSimpleCodes (BuildWordsSimpleCode wordCodes lim)) @
             placeholderEntries b
               (drop (codeCount b (BuildWordsSimpleCode wordCodes lim))
                  (placeholderTokens (lim (length b)))) \<and>
           int (codeCount b out) = lim (length b)"
proof -
  define S where "S = SortWordSimpleCodes (allocWords wordCodes lim)"
  define R where "R = codeEntries b S"
  define Q where "Q = lim (length b)"
  have cS: "length R = codeCount b (allocWords wordCodes lim)"
    by (simp add: R_def S_def SortWordSimpleCodes_count codeCount_codeEntries[symmetric])
  have le: "R \<noteq> [] \<Longrightarrow> int (length R) \<le> Q"
  proof -
    assume "R \<noteq> []"
    then have "0 < length R" by simp
    then have "0 < codeCount b (allocWords wordCodes lim)" by (simp only: cS)
    from allocWords_counts[OF this] show "int (length R) \<le> Q" by (simp add: cS Q_def)
  qed
  have srt: "sorted_wrt (\<lambda>a b. ws_Code a \<le> ws_Code b) S"
    unfolding S_def by (rule SortWordSimpleCodes_sorted)
  have "\<forall>e \<in> set ([] :: WordSimpleCode list). ws_Code e = []" by simp
  moreover have "([] :: WordSimpleCode list) = [] \<or> (\<forall>x \<in> set S. [] \<le> ws_Code x)" by simp
  ultimately obtain G where
    G: "groupLoop lim S [] [] [] = Inr G"
       "\<forall>b. codeEntries b G = codeEntries b [] @ padList lim b (codeEntries b ([] @ S))"
    using groupLoop_entries[OF srt, of "[]" "[]" lim "[]"] by blast
  have cG: "codeEntries b G = padList lim b R"
    using G(2) by (simp add: codeEntries_def R_def)
  have three: "distinct [1 :: nat, 2, 3]" by simp
  from fillLengths_entries[OF three, of G lim G b] obtain out where
    out: "fillLengths G lim [1, 2, 3] G = Inr out"
         "codeEntries b out = codeEntries b G @
            (if length b \<in> set [1, 2, 3] \<and> lim (length b) \<noteq> 0 \<and>
                b \<in> set (generateAllBaseCodes (length b)) \<and> codeEntries b G = []
             then placeholderEntries b (placeholderTokens (lim (length b))) else [])"
    by blast
  have run: "BuildWordsSimpleCode_backfill wordCodes lim = Inr out"
    using G(1) out(1)
    by (simp add: BuildWordsSimpleCode_backfill_def addPlaceholdersAfterSort_def
        addAllPossiblePlaceholders_def S_def[symmetric])
  have lenb: "length b \<in> set [1, 2, 3]"
  proof -
    have "generateAllBaseCodes (length b) \<noteq> []" using base by auto
    then show ?thesis by (auto simp: generateAllBaseCodes_def split: if_splits)
  qed
  have ent: "codeEntries b out = R @ placeholderEntries b (drop (length R) (placeholderTokens Q))"
  proof (cases "R = []")
    case True
    then have "codeEntries b G = []" using cG by (simp add: padList_Nil)
    with out(2) lenb q base True show ?thesis by (simp add: Q_def)
  next
    case False
    with le have l: "int (length R) \<le> Q" by simp
    have pad: "padList lim b R = R @ placeholderEntries b (drop (length R) (placeholderTokens Q))"
    proof (cases "int (length R) = Q")
      case True
      then have "drop (length R) (placeholderTokens Q) = []"
        by (simp add: length_placeholderTokens)
      with True False show ?thesis
        by (simp add: padList_def Q_def[symmetric] placeholderEntries_def)
    next
      case neq: False
      with l have "int (length R) < Q" by simp
      with False q show ?thesis by (simp add: padList_def Q_def[symmetric])
    qed
    from pad False have ne: "codeEntries b G \<noteq> []" using cG by simp
    have "codeEntries b out = codeEntries b G" using out(2) ne by simp
    then show ?thesis by (simp only: cG pad)
  qed
  have "length (codeEntries b out) = nat Q"
  proof (cases "R = []")
    case True
    with ent show ?thesis by (simp add: placeholderEntries_def length_placeholderTokens)
  next
    case False
    with le have "int (length R) \<le> Q" by simp
    with ent show ?thesis by (simp add: placeholderEntries_def length_placeholderTokens)
  qed
  then have cnt: "int (codeCount b out) = lim (length b)"
    using q by (simp add: codeCount_codeEntries Q_def)
  have "codeEntries b out =
      codeEntries b (SortWordSimpleCodes (BuildWordsSimpleCode wordCodes lim)) @
      placeholderEntries b
        (drop (codeCount b (BuildWordsSimpleCode wordCodes lim))
           (placeholderTokens (lim (length b))))"
    using ent by (simp add: R_def S_def cS[symmetric] Q_def BuildWordsSimpleCode_def)
  with run cnt show ?thesis by blast
qed

subsection \<open>The candidate disambiguator\<close>

lemma indexed_snoc: "indexed (pre @ [e]) = indexed pre @ [(e, length pre)]"
  by (simp add: indexed_def)

lemma groupOf_snoc:
  "groupOf (pre @ [e]) c =
     (if ce_Code e = c then groupOf pre c @ [(e, length pre)] else groupOf pre c)"
  by (simp add: groupOf_def indexed_snoc)

lemma groupsInsert_keys:
  "fst ` set (groupsInsert c ew gs) = insert c (fst ` set gs)"
proof (induction gs)
  case Nil
  then show ?case by simp
next
  case (Cons p gs)
  obtain c' g where p: "p = (c', g)" by (cases p)
  show ?case
  proof (cases "c' = c")
    case True
    with p show ?thesis by simp
  next
    case False
    with p have "groupsInsert c ew (p # gs) = (c', g) # groupsInsert c ew gs" by simp
    then have "fst ` set (groupsInsert c ew (p # gs)) = insert c' (fst ` set (groupsInsert c ew gs))"
      by simp
    also have "\<dots> = insert c' (insert c (fst ` set gs))" by (simp only: Cons.IH)
    also have "\<dots> = insert c (fst ` set (p # gs))" using p by auto
    finally show ?thesis .
  qed
qed

lemma groupsInsert_distinct:
  "distinct (map fst gs) \<Longrightarrow> distinct (map fst (groupsInsert c ew gs))"
proof (induction gs)
  case Nil
  then show ?case by simp
next
  case (Cons p gs)
  obtain c' g where p: "p = (c', g)" by (cases p)
  show ?case
  proof (cases "c' = c")
    case True
    with Cons.prems p show ?thesis by simp
  next
    case False
    from Cons.prems p have d: "distinct (map fst gs)" and n: "c' \<notin> fst ` set gs" by simp_all
    from n False have "c' \<notin> fst ` set (groupsInsert c ew gs)"
      by (simp only: groupsInsert_keys) simp
    with Cons.IH[OF d] p False show ?thesis by simp
  qed
qed

lemma groupsInsert_map_of:
  "map_of (groupsInsert c ew gs) =
     (map_of gs)(c \<mapsto> (case map_of gs c of None \<Rightarrow> [ew] | Some g \<Rightarrow> g @ [ew]))"
proof (induction gs)
  case Nil
  then show ?case by simp
next
  case (Cons p gs)
  obtain c' g where p: "p = (c', g)" by (cases p)
  show ?case
  proof (cases "c' = c")
    case True
    with p show ?thesis by (simp add: fun_eq_iff)
  next
    case False
    with p Cons.IH show ?thesis by (simp add: fun_eq_iff)
  qed
qed

lemma groupsRep_insert:
  assumes "groupsRep gs pre"
  shows "groupsRep (groupsInsert (ce_Code e) (e, length pre) gs) (pre @ [e])"
  unfolding groupsRep_def
proof (intro conjI allI)
  from assms have d: "distinct (map fst gs)"
    and m: "\<And>c. map_of gs c = (if groupOf pre c = [] then None else Some (groupOf pre c))"
    by (simp_all add: groupsRep_def)
  show "distinct (map fst (groupsInsert (ce_Code e) (e, length pre) gs))"
    by (rule groupsInsert_distinct[OF d])
  fix c
  show "map_of (groupsInsert (ce_Code e) (e, length pre) gs) c =
        (if groupOf (pre @ [e]) c = [] then None else Some (groupOf (pre @ [e]) c))"
  proof (cases "c = ce_Code e")
    case True
    show ?thesis
    proof (cases "groupOf pre c = []")
      case empty: True
      with m[of c] True show ?thesis by (simp add: groupsInsert_map_of groupOf_snoc)
    next
      case False
      with m[of c] True show ?thesis by (simp add: groupsInsert_map_of groupOf_snoc)
    qed
  next
    case False
    with m[of c] show ?thesis by (simp add: groupsInsert_map_of groupOf_snoc)
  qed
qed

lemma buildGroups_rep:
  "groupsRep gs pre \<Longrightarrow> i = length pre \<Longrightarrow> groupsRep (buildGroups es i gs) (pre @ es)"
proof (induction es arbitrary: pre i gs)
  case Nil
  then show ?case by simp
next
  case (Cons e es)
  from Cons.prems have r: "groupsRep (groupsInsert (ce_Code e) (e, i) gs) (pre @ [e])"
    using groupsRep_insert by simp
  have l: "Suc i = length (pre @ [e])" using Cons.prems(2) by simp
  from Cons.IH[OF r l] show ?case by simp
qed

lemma buildGroups_groups: "groupsRep (buildGroups entries 0 []) entries"
proof -
  have "groupsRep [] []" by (simp add: groupsRep_def groupOf_def indexed_def)
  from buildGroups_rep[OF this, of 0 entries] show ?thesis by simp
qed

lemma indexed_mem: "(e, j) \<in> set (indexed entries) \<longleftrightarrow> j < length entries \<and> e = entries ! j"
proof -
  have "(e, j) \<in> set (zip entries [0 ..< length entries]) \<longleftrightarrow>
        (\<exists>i < length entries. entries ! i = e \<and> [0 ..< length entries] ! i = j)"
    by (auto simp: in_set_zip)
  also have "\<dots> \<longleftrightarrow> j < length entries \<and> e = entries ! j" by auto
  finally show ?thesis by (simp only: indexed_def)
qed

lemma groupOf_mem:
  "(e, j) \<in> set (groupOf entries c) \<longleftrightarrow> j < length entries \<and> e = entries ! j \<and> ce_Code e = c"
  by (auto simp: groupOf_def indexed_mem)

lemma map_snd_indexed: "map snd (indexed entries) = [0 ..< length entries]"
  by (simp add: indexed_def)

lemma groupOf_distinct: "distinct (map snd (groupOf entries c))"
proof -
  have "distinct (map snd (indexed entries))" by (simp only: map_snd_indexed distinct_upt)
  then show ?thesis unfolding groupOf_def by (rule distinct_map_filter)
qed

lemma recoded_update: "recoded e c = e\<lparr>ce_Code := c\<rparr>"
  by (cases e) (simp add: recoded_def)

lemma assignGroup_result:
  "distinct (map snd s) \<Longrightarrow> \<forall>ew \<in> set s. snd ew < length result \<Longrightarrow>
   length (assignGroup nc code i s result) = length result \<and>
   (\<forall>j < length s. assignGroup nc code i s result ! snd (s ! j) =
                     Some (recoded (fst (s ! j)) (nc code (i + j)))) \<and>
   (\<forall>k. k \<notin> snd ` set s \<longrightarrow> assignGroup nc code i s result ! k = result ! k)"
proof (induction s arbitrary: i result)
  case Nil
  then show ?case by simp
next
  case (Cons ew rest)
  define result' where "result' = result[snd ew := Some (recoded (fst ew) (nc code i))]"
  have eq: "assignGroup nc code i (ew # rest) result = assignGroup nc code (Suc i) rest result'"
    by (simp add: result'_def recoded_def)
  from Cons.prems have d: "distinct (map snd rest)" and n: "snd ew \<notin> snd ` set rest"
    and b: "\<forall>ew' \<in> set rest. snd ew' < length result'" and b0: "snd ew < length result"
    by (simp_all add: result'_def)
  from Cons.IH[OF d b, of "Suc i"] have
    L: "length (assignGroup nc code (Suc i) rest result') = length result'" and
    W: "\<And>j. j < length rest \<Longrightarrow> assignGroup nc code (Suc i) rest result' ! snd (rest ! j) =
                     Some (recoded (fst (rest ! j)) (nc code (Suc i + j)))" and
    U: "\<And>k. k \<notin> snd ` set rest \<Longrightarrow> assignGroup nc code (Suc i) rest result' ! k = result' ! k"
    by blast+
  show ?case
  proof (intro conjI allI impI)
    show "length (assignGroup nc code i (ew # rest) result) = length result"
      using L by (simp only: eq) (simp add: result'_def)
  next
    fix j assume j: "j < length (ew # rest)"
    show "assignGroup nc code i (ew # rest) result ! snd ((ew # rest) ! j) =
          Some (recoded (fst ((ew # rest) ! j)) (nc code (i + j)))"
    proof (cases j)
      case 0
      have "assignGroup nc code (Suc i) rest result' ! snd ew = result' ! snd ew"
        by (rule U[OF n])
      also have "\<dots> = Some (recoded (fst ew) (nc code i))"
        using b0 by (simp add: result'_def)
      finally show ?thesis using 0 by (simp only: eq) simp
    next
      case (Suc j')
      with j have "j' < length rest" by simp
      from W[OF this] Suc show ?thesis by (simp only: eq) simp
    qed
  next
    fix k assume k: "k \<notin> snd ` set (ew # rest)"
    then have k1: "k \<notin> snd ` set rest" and k2: "k \<noteq> snd ew" by auto
    have "assignGroup nc code (Suc i) rest result' ! k = result' ! k" by (rule U[OF k1])
    also have "\<dots> = result ! k" using k2 by (simp add: result'_def)
    finally show "assignGroup nc code i (ew # rest) result ! k = result ! k" by (simp only: eq)
  qed
qed

lemma perm_distinct_snd:
  "mset s = mset g \<Longrightarrow> distinct (map snd g) \<Longrightarrow> distinct (map snd s)"
proof -
  assume p: "mset s = mset g" and d: "distinct (map snd g)"
  have "mset (map snd s) = mset (map snd g)"
    using p by (simp only: mset_map)
  then show ?thesis using d by (metis mset_eq_imp_distinct_iff)
qed

lemma perm_set: "mset s = mset g \<Longrightarrow> set s = set (g :: 'a list)"
  by (rule mset_eq_setD)

lemma perm_length: "mset s = mset g \<Longrightarrow> length s = length (g :: 'a list)"
  by (rule mset_eq_length)

lemma sortSlice_sortsBy: "sortsBy higherFreq (sortSlice higherFreq)"
proof -
  have "\<And>xs. sorted_wrt (\<lambda>a b. \<not> higherFreq b a) (sortSlice higherFreq xs)"
    by (rule sorted_sortSlice) (simp_all add: higherFreq_def)
  then show ?thesis by (simp add: sortsBy_def mset_sortSlice)
qed

lemma processGroups_Cons:
  "processGroups srt nc ((code, grp) # rest) result = processGroups srt nc rest (writeGroup srt nc code grp result)"
  by (simp add: writeGroup_def)

lemma writeGroup_result:
  assumes p: "mset (srt g) = mset g"
      and d: "distinct (map snd g)" and b: "\<forall>ew \<in> set g. snd ew < length result"
  shows "length (writeGroup srt nc code g result) = length result \<and>
         written srt nc code g (writeGroup srt nc code g result) \<and>
         (\<forall>k. k \<notin> snd ` set g \<longrightarrow> writeGroup srt nc code g result ! k = result ! k)"
proof (cases "length g = 1")
  case True
  then obtain ew where g: "g = [ew]" by (cases g) auto
  with b have "snd ew < length result" by simp
  with g show ?thesis by (simp add: writeGroup_def written_def)
next
  case False
  let ?s = "srt g"
  have ds: "distinct (map snd ?s)" by (rule perm_distinct_snd[OF p d])
  have bs: "\<forall>ew \<in> set ?s. snd ew < length result" using b by (simp only: perm_set[OF p])
  have w: "writeGroup srt nc code g result = assignGroup nc code 0 ?s result"
    using False by (simp add: writeGroup_def)
  from assignGroup_result[OF ds bs, of nc code 0] have
    L: "length (assignGroup nc code 0 ?s result) = length result" and
    W: "\<And>j. j < length ?s \<Longrightarrow> assignGroup nc code 0 ?s result ! snd (?s ! j) =
                     Some (recoded (fst (?s ! j)) (nc code j))" and
    U: "\<And>k. k \<notin> snd ` set ?s \<Longrightarrow> assignGroup nc code 0 ?s result ! k = result ! k"
    by simp_all
  have "written srt nc code g (assignGroup nc code 0 ?s result)"
    unfolding written_def using False W by (simp add: perm_length[OF p])
  moreover have "\<forall>k. k \<notin> snd ` set g \<longrightarrow> assignGroup nc code 0 ?s result ! k = result ! k"
    using U by (simp add: perm_set[OF p])
  ultimately show ?thesis using L by (simp add: w)
qed

lemma written_cong:
  assumes p: "mset (srt g) = mset g"
      and same: "\<forall>k \<in> snd ` set g. r2 ! k = r1 ! k" and w: "written srt nc code g r1"
  shows "written srt nc code g r2"
proof -
  let ?s = "srt g"
  have s: "\<And>i. i < length g \<Longrightarrow> snd (?s ! i) \<in> snd ` set g"
  proof -
    fix i assume "i < length g"
    then have "i < length ?s" by (simp only: perm_length[OF p])
    then have "?s ! i \<in> set ?s" by (rule nth_mem)
    then have "?s ! i \<in> set g" by (simp only: perm_set[OF p])
    then show "snd (?s ! i) \<in> snd ` set g" by (rule imageI)
  qed
  have z: "length g = 1 \<Longrightarrow> snd (g ! 0) \<in> snd ` set g"
    by (cases g) auto
  show ?thesis
    unfolding written_def
  proof (intro conjI impI allI)
    assume l: "length g = 1"
    with w have "r1 ! snd (g ! 0) = Some (fst (g ! 0))" by (simp add: written_def)
    moreover have "r2 ! snd (g ! 0) = r1 ! snd (g ! 0)" by (rule bspec[OF same z[OF l]])
    ultimately show "r2 ! snd (g ! 0) = Some (fst (g ! 0))" by (rule ssubst[rotated])
  next
    fix i assume l: "length g \<noteq> 1" and i: "i < length g"
    with w have "r1 ! snd (?s ! i) = Some (recoded (fst (?s ! i)) (nc code i))"
      by (simp add: written_def)
    moreover have "r2 ! snd (?s ! i) = r1 ! snd (?s ! i)" by (rule bspec[OF same s[OF i]])
    ultimately show "r2 ! snd (?s ! i) = Some (recoded (fst (?s ! i)) (nc code i))"
      by (rule ssubst[rotated])
  qed
qed

text \<open>
  Groups with distinct codes, each holding distinct positions that belong to its code, do
  not overwrite one another: \<open>owner\<close> gives the code of a position.
\<close>

lemma processGroups_result:
  assumes "distinct (map fst gs)"
      and "\<And>c g. (c, g) \<in> set gs \<Longrightarrow>
             distinct (map snd g) \<and> (\<forall>ew \<in> set g. snd ew < length result \<and> owner (snd ew) = c)"
      and perm: "\<And>xs. mset (srt xs) = mset xs"
  shows "length (processGroups srt nc gs result) = length result \<and>
         (\<forall>c g. (c, g) \<in> set gs \<longrightarrow> written srt nc c g (processGroups srt nc gs result)) \<and>
         (\<forall>k. owner k \<notin> fst ` set gs \<longrightarrow> processGroups srt nc gs result ! k = result ! k)"
  using assms
proof (induction gs arbitrary: result)
  case Nil
  then show ?case by simp
next
  case (Cons p rest)
  obtain c g where p: "p = (c, g)" by (cases p)
  define r1 where "r1 = writeGroup srt nc c g result"
  have eq: "processGroups srt nc (p # rest) result = processGroups srt nc rest r1"
    by (simp only: p r1_def processGroups_Cons)
  have pin: "(c, g) \<in> set (p # rest)" using p by simp
  from Cons.prems(2)[OF pin] have dg: "distinct (map snd g)"
    and bg: "\<forall>ew \<in> set g. snd ew < length result"
    and og: "\<forall>ew \<in> set g. owner (snd ew) = c" by blast+
  from writeGroup_result[where srt = srt and g = g and result = result and nc = nc and code = c, OF perm dg bg] have
    L1: "length r1 = length result" and W1: "written srt nc c g r1" and
    U1: "\<And>k. k \<notin> snd ` set g \<Longrightarrow> r1 ! k = result ! k"
    by (simp_all add: r1_def)
  from Cons.prems(1) p have drest: "distinct (map fst rest)" and cnot: "c \<notin> fst ` set rest"
    by simp_all
  have prest: "\<And>c' g'. (c', g') \<in> set rest \<Longrightarrow>
       distinct (map snd g') \<and> (\<forall>ew \<in> set g'. snd ew < length r1 \<and> owner (snd ew) = c')"
  proof -
    fix c' g' assume "(c', g') \<in> set rest"
    then have "(c', g') \<in> set (p # rest)" by simp
    from Cons.prems(2)[OF this] show
      "distinct (map snd g') \<and> (\<forall>ew \<in> set g'. snd ew < length r1 \<and> owner (snd ew) = c')"
      by (simp add: L1)
  qed
  from Cons.IH[OF drest prest perm] have
    L: "length (processGroups srt nc rest r1) = length r1" and
    W: "\<And>c' g'. (c', g') \<in> set rest \<Longrightarrow> written srt nc c' g' (processGroups srt nc rest r1)" and
    U: "\<And>k. owner k \<notin> fst ` set rest \<Longrightarrow> processGroups srt nc rest r1 ! k = r1 ! k"
    by blast+
  have Wg: "written srt nc c g (processGroups srt nc rest r1)"
  proof (rule written_cong[where srt = srt, OF perm _ W1])
    show "\<forall>k \<in> snd ` set g. processGroups srt nc rest r1 ! k = r1 ! k"
    proof
      fix k assume "k \<in> snd ` set g"
      then obtain ew where "ew \<in> set g" "k = snd ew" by blast
      with og have "owner k = c" by simp
      with cnot have "owner k \<notin> fst ` set rest" by simp
      then show "processGroups srt nc rest r1 ! k = r1 ! k" by (rule U)
    qed
  qed
  show ?case
  proof (intro conjI allI impI)
    show "length (processGroups srt nc (p # rest) result) = length result"
      using L L1 by (simp only: eq)
  next
    fix c' g' assume "(c', g') \<in> set (p # rest)"
    then consider "c' = c \<and> g' = g" | "(c', g') \<in> set rest" using p by auto
    then show "written srt nc c' g' (processGroups srt nc (p # rest) result)"
    proof cases
      case 1
      with Wg show ?thesis by (simp only: eq)
    next
      case 2
      from W[OF this] show ?thesis by (simp only: eq)
    qed
  next
    fix k assume k: "owner k \<notin> fst ` set (p # rest)"
    then have k1: "owner k \<notin> fst ` set rest" and k2: "owner k \<noteq> c" using p by auto
    have "k \<notin> snd ` set g"
    proof
      assume "k \<in> snd ` set g"
      then obtain ew where "ew \<in> set g" "k = snd ew" by blast
      with og have "owner k = c" by simp
      with k2 show False by simp
    qed
    from U[OF k1] U1[OF this] show "processGroups srt nc (p # rest) result ! k = result ! k"
      by (simp only: eq)
  qed
qed

lemma concat_somes:
  "\<forall>x \<in> set R. x \<noteq> None \<Longrightarrow>
   concat (map (\<lambda>entry. case entry of None \<Rightarrow> [] | Some e \<Rightarrow> [e]) R) = map the R"
  by (induction R) auto

lemma groupsRep_mem:
  assumes "groupsRep gs entries"
  shows "(c, g) \<in> set gs \<longleftrightarrow> g = groupOf entries c \<and> g \<noteq> []"
proof -
  from assms have d: "distinct (map fst gs)"
    and m: "map_of gs c = (if groupOf entries c = [] then None else Some (groupOf entries c))"
    by (simp_all add: groupsRep_def)
  have "(c, g) \<in> set gs \<longleftrightarrow> map_of gs c = Some g" using d by simp
  also have "\<dots> \<longleftrightarrow> g = groupOf entries c \<and> g \<noteq> []" using m by auto
  finally show ?thesis .
qed

lemma byFreqDesc_sorted:
  "sorted_wrt (\<lambda>a b. \<not> higherFreq b a) s \<Longrightarrow> byFreqDesc s"
  by (simp add: byFreqDesc_def higherFreq_def not_less)

lemma addCandidates_suffixed:
  assumes contract: "sortsBy higherFreq srt"
  shows "suffixedBy nc entries (addCandidates srt nc entries)"
proof -
  have p: "\<And>xs. mset (srt xs) = mset xs"
    using contract by (simp add: sortsBy_def)
  have srtd: "\<And>xs. byFreqDesc (srt xs)"
    using contract by (simp add: sortsBy_def byFreqDesc_sorted)
  define n where "n = length entries"
  define gs where "gs = buildGroups entries 0 []"
  define R where "R = processGroups srt nc gs (replicate n None)"
  define owner where "owner = (\<lambda>k. ce_Code (entries ! k))"
  have rep: "groupsRep gs entries" unfolding gs_def by (rule buildGroups_groups)
  then have d: "distinct (map fst gs)" by (simp add: groupsRep_def)
  have grp: "\<And>c g. (c, g) \<in> set gs \<Longrightarrow>
      distinct (map snd g) \<and> (\<forall>ew \<in> set g. snd ew < length (replicate n None) \<and> owner (snd ew) = c)"
  proof -
    fix c g assume "(c, g) \<in> set gs"
    then have g: "g = groupOf entries c" using groupsRep_mem[OF rep] by blast
    have "\<forall>ew \<in> set g. snd ew < n \<and> owner (snd ew) = c"
    proof
      fix ew assume "ew \<in> set g"
      then have "(fst ew, snd ew) \<in> set (groupOf entries c)" using g by simp
      then have a: "snd ew < length entries" "fst ew = entries ! snd ew" "ce_Code (fst ew) = c"
        using groupOf_mem by blast+
      from a(2,3) have "ce_Code (entries ! snd ew) = c" by simp
      with a(1) show "snd ew < n \<and> owner (snd ew) = c"
        by (simp add: n_def owner_def)
    qed
    with g show "distinct (map snd g) \<and>
        (\<forall>ew \<in> set g. snd ew < length (replicate n None) \<and> owner (snd ew) = c)"
      by (simp add: groupOf_distinct)
  qed
  from processGroups_result[OF d grp p, of nc] have
    L: "length R = n" and
    W: "\<And>c g. (c, g) \<in> set gs \<Longrightarrow> written srt nc c g R"
    by (simp_all add: R_def)
  have Wc: "\<And>c. groupOf entries c \<noteq> [] \<Longrightarrow> written srt nc c (groupOf entries c) R"
  proof -
    fix c assume "groupOf entries c \<noteq> []"
    then have "(c, groupOf entries c) \<in> set gs" using groupsRep_mem[OF rep] by blast
    then show "written srt nc c (groupOf entries c) R" by (rule W)
  qed
  have one: "\<And>c. length (groupOf entries c) = 1 \<Longrightarrow>
      R ! snd (groupOf entries c ! 0) = Some (fst (groupOf entries c ! 0))"
  proof -
    fix c assume l: "length (groupOf entries c) = 1"
    then have "groupOf entries c \<noteq> []" by auto
    from Wc[OF this] l show "R ! snd (groupOf entries c ! 0) = Some (fst (groupOf entries c ! 0))"
      by (simp add: written_def)
  qed
  have many: "\<And>c i. length (groupOf entries c) \<noteq> 1 \<Longrightarrow> i < length (groupOf entries c) \<Longrightarrow>
      R ! snd (srt (groupOf entries c) ! i) =
      Some (recoded (fst (srt (groupOf entries c) ! i)) (nc c i))"
  proof -
    fix c i assume l: "length (groupOf entries c) \<noteq> 1" and i: "i < length (groupOf entries c)"
    then have "groupOf entries c \<noteq> []" by auto
    from Wc[OF this] l i show "R ! snd (srt (groupOf entries c) ! i) =
      Some (recoded (fst (srt (groupOf entries c) ! i)) (nc c i))"
      by (simp add: written_def)
  qed
  have some: "\<forall>x \<in> set R. x \<noteq> None"
  proof
    fix x assume "x \<in> set R"
    then obtain k where k: "k < n" "x = R ! k" using L by (metis in_set_conv_nth)
    define c where "c = ce_Code (entries ! k)"
    have mem: "(entries ! k, k) \<in> set (groupOf entries c)"
      using k(1) by (simp add: groupOf_mem n_def c_def)
    show "x \<noteq> None"
    proof (cases "length (groupOf entries c) = 1")
      case True
      then obtain ew where g: "groupOf entries c = [ew]" by (cases "groupOf entries c") auto
      with mem have "ew = (entries ! k, k)" by simp
      with one[OF True] g have "R ! k = Some (entries ! k)" by simp
      with k(2) show ?thesis by simp
    next
      case False
      from mem have "(entries ! k, k) \<in> set (srt (groupOf entries c))"
        by (simp only: perm_set[OF p])
      then obtain i where i: "i < length (srt (groupOf entries c))"
          "srt (groupOf entries c) ! i = (entries ! k, k)"
        by (metis in_set_conv_nth)
      from i(1) have "i < length (groupOf entries c)" by (simp only: perm_length[OF p])
      from many[OF False this] i(2) have "R ! k = Some (recoded (entries ! k) (nc c i))" by simp
      with k(2) show ?thesis by simp
    qed
  qed
  have out: "addCandidates srt nc entries = map the R"
    unfolding addCandidates_def Let_def using concat_somes[OF some]
    by (simp only: R_def gs_def n_def)
  have idx: "\<And>c ew. ew \<in> set (groupOf entries c) \<Longrightarrow> snd ew < length R"
  proof -
    fix c ew assume "ew \<in> set (groupOf entries c)"
    then have "(fst ew, snd ew) \<in> set (groupOf entries c)" by simp
    then have "snd ew < length entries" using groupOf_mem by blast
    then show "snd ew < length R" by (simp add: L n_def)
  qed
  show ?thesis
    unfolding suffixedBy_def
  proof (intro conjI allI impI)
    show "length (addCandidates srt nc entries) = length entries"
      by (simp add: out L n_def)
  next
    fix c assume l: "length (groupOf entries c) = 1"
    then have "groupOf entries c ! 0 \<in> set (groupOf entries c)" by (cases "groupOf entries c") auto
    from idx[OF this] one[OF l]
    show "addCandidates srt nc entries ! snd (groupOf entries c ! 0) = fst (groupOf entries c ! 0)"
      by (simp add: out)
  next
    fix c assume l: "length (groupOf entries c) \<noteq> 1"
    let ?s = "srt (groupOf entries c)"
    have 1: "mset ?s = mset (groupOf entries c)" by (rule p)
    have 2: "byFreqDesc ?s" by (rule srtd)
    have 3: "\<forall>i < length ?s. addCandidates srt nc entries ! snd (?s ! i) =
               (fst (?s ! i))\<lparr>ce_Code := nc c i\<rparr>"
    proof (intro allI impI)
      fix i assume i: "i < length ?s"
      then have i': "i < length (groupOf entries c)" by (simp only: perm_length[OF p])
      from i have "?s ! i \<in> set ?s" by (rule nth_mem)
      then have "?s ! i \<in> set (groupOf entries c)" by (simp only: perm_set[OF p])
      from idx[OF this] many[OF l i']
      show "addCandidates srt nc entries ! snd (?s ! i) = (fst (?s ! i))\<lparr>ce_Code := nc c i\<rparr>"
        by (simp add: out recoded_update)
    qed
    from 1 2 3 show "\<exists>s. mset s = mset (groupOf entries c) \<and> byFreqDesc s \<and>
        (\<forall>i < length s. addCandidates srt nc entries ! snd (s ! i) = (fst (s ! i))\<lparr>ce_Code := nc c i\<rparr>)"
      by blast
  qed
qed

section \<open>The claims\<close>

subsection \<open>Full codes\<close>

text \<open>
  Claim C1.  For a decomposition with a single component whose component code \<open>c\<close> is
  not empty, \<open>calcFullCodeByDiv\<close> returns the code made of \<open>c[0]\<close>, then twice the
  second symbol of \<open>c\<close> (the first if \<open>c\<close> has one symbol), then the third symbol of
  \<open>c\<close> (the second if \<open>c\<close> has two symbols, the first if it has one), truncated to four
  symbols and lower-cased; the annotated string is \<open>c\<close> itself.  The witness evaluates
  the two examples of the claim, \<open>abc\<close> gives \<open>abbc\<close> and \<open>a\<close> gives \<open>aaaa\<close>, and a
  code with upper-case letters: \<open>QwE\<close> gives \<open>qwwe\<close>.
\<close>

theorem single_root_full_code:
  "mget m cmp \<noteq> [] \<Longrightarrow>
   calcFullCodeByDiv uni [cmp] m =
     Inr (mget m cmp, ToLower uni (take 4 (singleRootCode (mget m cmp))))"
  by (simp add: calc_arity1 finishCode_def singleRootCode_def Let_def)

theorem single_root_full_code_witness:
  "mget [''r'' \<mapsto> ''abc''] ''r'' \<noteq> [] \<and>
   calcFullCodeByDiv (\<lambda>s. s) [''r''] [''r'' \<mapsto> ''abc''] = Inr (''abc'', ''abbc'') \<and>
   mget [''r'' \<mapsto> ''a''] ''r'' \<noteq> [] \<and>
   calcFullCodeByDiv (\<lambda>s. s) [''r''] [''r'' \<mapsto> ''a''] = Inr (''a'', ''aaaa'') \<and>
   mget [''r'' \<mapsto> ''QwE''] ''r'' \<noteq> [] \<and>
   calcFullCodeByDiv (\<lambda>s. s) [''r''] [''r'' \<mapsto> ''QwE''] = Inr (''QwE'', ''qwwe'')"
proof -
  have low: "ToLower (\<lambda>s. s) (take 4 (singleRootCode ''QwE'')) = ''qwwe''"
    by code_simp
  from single_root_full_code[of "[''r'' \<mapsto> ''abc'']" "''r''" "\<lambda>s. s"]
       single_root_full_code[of "[''r'' \<mapsto> ''a'']" "''r''" "\<lambda>s. s"]
       single_root_full_code[of "[''r'' \<mapsto> ''QwE'']" "''r''" "\<lambda>s. s"] low
  show ?thesis
    by (simp add: mget_def singleRootCode_def midCode_def smallCode_def ToLower_def isASCII_def
        lowerByte_def isUpperByte_def)
qed

text \<open>
  Claim C8, as amended.  The claim speaks of every component code map.  The source cuts
  codes by bytes and lower-cases with \<open>strings.ToLower\<close>, which is bytewise on ASCII
  only.  What holds: when the component codes of the map are ASCII strings, every code that
  \<open>calcFullCodeByDiv\<close> returns, for any decomposition, has at most four bytes and holds
  no upper-case letter, and consists of the letters \<open>a..z\<close> when the component codes
  consist of letters; the same holds of every code in the list that
  \<open>BuildFullCodeMetaList\<close> returns.
\<close>

theorem full_code_lowercase:
  assumes asc: "asciiCodes m"
  shows "(calcFullCodeByDiv uni dv m = Inr (full, code) \<longrightarrow>
            length code \<le> 4 \<and> lowerCased code \<and> (letterCodes m \<longrightarrow> lowerLetters code))
       \<and> (BuildFullCodeMetaList uni table m freqSet = Inr out \<longrightarrow>
            (\<forall>e \<in> set out. length (cm_Code e) \<le> 4 \<and> lowerCased (cm_Code e) \<and>
                            (letterCodes m \<longrightarrow> lowerLetters (cm_Code e))))"
proof (intro conjI impI ballI)
  assume "calcFullCodeByDiv uni dv m = Inr (full, code)"
  from calc_lowercase[OF asc this]
  show "length code \<le> 4" "lowerCased code" by simp_all
next
  assume "calcFullCodeByDiv uni dv m = Inr (full, code)" "letterCodes m"
  with calc_lowercase[OF asc] show "lowerLetters code" by blast
next
  fix e
  assume b: "BuildFullCodeMetaList uni table m freqSet = Inr out" and e: "e \<in> set out"
  from b obtain es where es: "tableEntries uni m freqSet table = Inr es"
      and out: "out = sortCharMetaByCode es"
    by (auto simp: BuildFullCodeMetaList_def split: sum.splits)
  from e out have "e \<in> set es" by (simp add: sortCharMetaByCode_def set_sortSlice)
  from tableEntries_codes[OF es this] obtain dv' full' where
    c: "calcFullCodeByDiv uni dv' m = Inr (full', cm_Code e)" by blast
  from calc_lowercase[OF asc c]
  show "length (cm_Code e) \<le> 4" "lowerCased (cm_Code e)" by simp_all
  { assume "letterCodes m"
    with calc_lowercase[OF asc c] show "lowerLetters (cm_Code e)" by blast }
qed

theorem full_code_lowercase_witness:
  "asciiCodes [''r'' \<mapsto> ''Qa''] \<and>
   calcFullCodeByDiv (\<lambda>s. s) [''r''] [''r'' \<mapsto> ''Qa''] = Inr (''Qa'', ''qaaa'') \<and>
   length ''qaaa'' \<le> 4 \<and> lowerCased ''qaaa'' \<and>
   letterCodes [''r'' \<mapsto> ''Qa''] \<and> lowerLetters ''qaaa'' \<and>
   BuildFullCodeMetaList (\<lambda>s. s)
     [(''x'', [\<lparr>dv_Char = ''x'', dv_Divs = [''r''], dv_Pin = [], dv_Set = [], dv_Unicode = []\<rparr>])]
     [''r'' \<mapsto> ''Qa''] Map.empty =
   Inr [\<lparr>cm_Char = ''x'', cm_Full = ''Qa'', cm_Code = ''qaaa'', cm_Freq = 0, cm_MDiv = True,
          cm_Simp = False,
          cm_Division = Some \<lparr>dv_Char = ''x'', dv_Divs = [''r''], dv_Pin = [], dv_Set = [],
                                 dv_Unicode = []\<rparr>\<rparr>]"
proof -
  have a: "asciiCodes [''r'' \<mapsto> ''Qa'']"
    by (simp add: asciiCodes_def isASCII_def)
  have c: "calcFullCodeByDiv (\<lambda>s. s) [''r''] [''r'' \<mapsto> ''Qa''] = Inr (''Qa'', ''qaaa'')"
    by code_simp
  have l: "letterCodes [''r'' \<mapsto> ''Qa'']"
    by (simp add: letterCodes_def isLetter_def isUpperByte_def isLowerByte_def)
  have b: "BuildFullCodeMetaList (\<lambda>s. s)
     [(''x'', [\<lparr>dv_Char = ''x'', dv_Divs = [''r''], dv_Pin = [], dv_Set = [], dv_Unicode = []\<rparr>])]
     [''r'' \<mapsto> ''Qa''] Map.empty =
   Inr [\<lparr>cm_Char = ''x'', cm_Full = ''Qa'', cm_Code = ''qaaa'', cm_Freq = 0, cm_MDiv = True,
          cm_Simp = False,
          cm_Division = Some \<lparr>dv_Char = ''x'', dv_Divs = [''r''], dv_Pin = [], dv_Set = [],
                                 dv_Unicode = []\<rparr>\<rparr>]"
    by code_simp
  from full_code_lowercase[OF a, of "\<lambda>s. s" "[''r'']" "''Qa''" "''qaaa''"] a c l b
  show ?thesis by simp
qed

text \<open>
  The claim fails on a component code outside ASCII.  With the codes \<open>a\<close> and
  \<open>E4 B8 AD\<close> (one character of three bytes) for the two components of a decomposition,
  the four bytes cut out are \<open>a\<close>, \<open>E4\<close>, \<open>a\<close>, \<open>AD\<close>; the second and
  fourth are ill-formed UTF-8, \<open>strings.ToLower\<close> writes \<open>U+FFFD\<close> for each, and the
  code returned has eight bytes.
\<close>

theorem full_code_lowercase_counterexample:
  "calcFullCodeByDiv mapToLower [''r'', ''s'']
     [''r'' \<mapsto> ''a'', ''s'' \<mapsto> [char_of (228 :: nat), char_of (184 :: nat), char_of (173 :: nat)]] =
   Inr ([CHR ''a'', CHR ''_'', char_of (228 :: nat), char_of (184 :: nat), char_of (173 :: nat)],
        [CHR ''a'', char_of (239 :: nat), char_of (191 :: nat), char_of (189 :: nat),
         CHR ''a'', char_of (239 :: nat), char_of (191 :: nat), char_of (189 :: nat)]) \<and>
   \<not> length [CHR ''a'', char_of (239 :: nat), char_of (191 :: nat), char_of (189 :: nat),
         CHR ''a'', char_of (239 :: nat), char_of (191 :: nat), char_of (189 :: nat)] \<le> 4"
  by code_simp

text \<open>
  Claim C5, as amended.  The claim says that a decomposition with any component of empty
  code yields no full code.  \<open>calcFullCodeByDiv\<close> tests the components whose codes it
  reads: all of them up to arity 2; the first, second and last from arity 3 on.  What
  holds: a decomposition one of whose read components has an empty code yields no full
  code, \<open>calcFullCodeByDiv\<close> returning the empty annotated string and the empty code
  without a panic; and the codes of the other components do not enter the code, which is
  the same under two component code maps that agree at the read components.
\<close>

theorem missing_component_no_code:
  "((\<exists>c \<in> set (readComponents dv). mget m c = []) \<longrightarrow>
      calcFullCodeByDiv uni dv m = Inr ([], [])) \<and>
   (sameCodesAt (readComponents dv) m m' \<longrightarrow>
      map_sum id snd (calcFullCodeByDiv uni dv m') = map_sum id snd (calcFullCodeByDiv uni dv m))"
proof (intro conjI impI)
  assume missing: "\<exists>c \<in> set (readComponents dv). mget m c = []"
  then have "readComponents dv \<noteq> []" by auto
  then have "dv \<noteq> []" by (auto simp: readComponents_def)
  then show "calcFullCodeByDiv uni dv m = Inr ([], [])"
    using missing by (rule calc_missing)
next
  assume "sameCodesAt (readComponents dv) m m'"
  then have same: "\<forall>c \<in> set (readComponents dv). mget m' c = mget m c"
    by (simp add: sameCodesAt_def list_all_iff)
  consider "length dv = 0" | "length dv = 1" | "length dv = 2" | "length dv \<ge> 3"
    by linarith
  then show "map_sum id snd (calcFullCodeByDiv uni dv m') =
             map_sum id snd (calcFullCodeByDiv uni dv m)"
  proof cases
    case 1
    then show ?thesis by (simp add: calc_arity0)
  next
    case 2
    with same have "mget m' (dv ! 0) = mget m (dv ! 0)" by (simp add: readComponents_def)
    with 2 show ?thesis by (simp add: calc_arity1)
  next
    case 3
    with same have "mget m' (dv ! 0) = mget m (dv ! 0)" "mget m' (dv ! 1) = mget m (dv ! 1)"
      by (simp_all add: readComponents_def)
    with 3 show ?thesis by (simp add: calc_arity2)
  next
    case 4
    then have "dv \<noteq> []" "length dv \<noteq> 1" "length dv \<noteq> 2" by auto
    with same have "mget m' (dv ! 0) = mget m (dv ! 0)" "mget m' (dv ! 1) = mget m (dv ! 1)"
      "mget m' (dv ! (length dv - 1)) = mget m (dv ! (length dv - 1))"
      by (simp_all add: readComponents_def)
    with 4 show ?thesis by (simp add: calc_arity3)
  qed
qed

theorem missing_component_no_code_witness:
  "(\<exists>c \<in> set (readComponents [''r'', ''s'']). mget [''r'' \<mapsto> ''ab''] c = []) \<and>
   calcFullCodeByDiv (\<lambda>s. s) [''r'', ''s''] [''r'' \<mapsto> ''ab''] = Inr ([], []) \<and>
   sameCodesAt (readComponents [''r'', ''s'', ''t'', ''u''])
     [''r'' \<mapsto> ''Ab'', ''s'' \<mapsto> ''cd'', ''u'' \<mapsto> ''xyz'']
     [''r'' \<mapsto> ''Ab'', ''s'' \<mapsto> ''cd'', ''t'' \<mapsto> ''q'', ''u'' \<mapsto> ''xyz''] \<and>
   map_sum id snd (calcFullCodeByDiv (\<lambda>s. s) [''r'', ''s'', ''t'', ''u'']
     [''r'' \<mapsto> ''Ab'', ''s'' \<mapsto> ''cd'', ''t'' \<mapsto> ''q'', ''u'' \<mapsto> ''xyz'']) = Inr ''acxz'' \<and>
   map_sum id snd (calcFullCodeByDiv (\<lambda>s. s) [''r'', ''s'', ''t'', ''u'']
     [''r'' \<mapsto> ''Ab'', ''s'' \<mapsto> ''cd'', ''u'' \<mapsto> ''xyz'']) = Inr ''acxz''"
proof -
  have 1: "\<exists>c \<in> set (readComponents [''r'', ''s'']). mget [''r'' \<mapsto> ''ab''] c = []"
    by (simp add: readComponents_def mget_def)
  have 2: "sameCodesAt (readComponents [''r'', ''s'', ''t'', ''u''])
     [''r'' \<mapsto> ''Ab'', ''s'' \<mapsto> ''cd'', ''u'' \<mapsto> ''xyz'']
     [''r'' \<mapsto> ''Ab'', ''s'' \<mapsto> ''cd'', ''t'' \<mapsto> ''q'', ''u'' \<mapsto> ''xyz'']"
    by (simp add: sameCodesAt_def readComponents_def mget_def)
  have 3: "map_sum id snd (calcFullCodeByDiv (\<lambda>s. s) [''r'', ''s'', ''t'', ''u'']
     [''r'' \<mapsto> ''Ab'', ''s'' \<mapsto> ''cd'', ''u'' \<mapsto> ''xyz'']) = Inr ''acxz''"
    by code_simp
  from missing_component_no_code[of "[''r'', ''s'']" "[''r'' \<mapsto> ''ab'']" "\<lambda>s. s"]
       missing_component_no_code[of "[''r'', ''s'', ''t'', ''u'']"
         "[''r'' \<mapsto> ''Ab'', ''s'' \<mapsto> ''cd'', ''u'' \<mapsto> ''xyz'']" "\<lambda>s. s"
         "[''r'' \<mapsto> ''Ab'', ''s'' \<mapsto> ''cd'', ''t'' \<mapsto> ''q'', ''u'' \<mapsto> ''xyz'']"]
       1 2 3
  show ?thesis by simp
qed

text \<open>
  The claim fails at a four-component decomposition whose third component has no code:
  a full code is produced, and the list returned holds the entry of the character with
  that code.
\<close>

theorem missing_component_counterexample:
  "mget [''r'' \<mapsto> ''Ab'', ''s'' \<mapsto> ''cd'', ''u'' \<mapsto> ''xyz''] ''t'' = [] \<and>
   calcFullCodeByDiv (\<lambda>s. s) [''r'', ''s'', ''t'', ''u'']
     [''r'' \<mapsto> ''Ab'', ''s'' \<mapsto> ''cd'', ''u'' \<mapsto> ''xyz''] = Inr (''Ab_cd_xyz'', ''acxz'') \<and>
   BuildFullCodeMetaList (\<lambda>s. s)
     [(''x'', [\<lparr>dv_Char = ''x'', dv_Divs = [''r'', ''s'', ''t'', ''u''], dv_Pin = [], dv_Set = [],
                dv_Unicode = []\<rparr>])]
     [''r'' \<mapsto> ''Ab'', ''s'' \<mapsto> ''cd'', ''u'' \<mapsto> ''xyz''] Map.empty =
   Inr [\<lparr>cm_Char = ''x'', cm_Full = ''Ab_cd_xyz'', cm_Code = ''acxz'', cm_Freq = 0, cm_MDiv = True,
          cm_Simp = False,
          cm_Division = Some \<lparr>dv_Char = ''x'', dv_Divs = [''r'', ''s'', ''t'', ''u''], dv_Pin = [],
                                 dv_Set = [], dv_Unicode = []\<rparr>\<rparr>]"
  by code_simp

text \<open>
  What becomes of a decomposition without code is not part of the amended claim:
  \<open>BuildFullCodeMetaList\<close> appends its entry like any other, with the empty code, and
  \<open>BuildSimpleCodeList\<close>, which takes the last byte of every code, panics on that
  entry, whereas \<open>BuildWordsFullCode\<close> skips a word whose code is empty.
\<close>

lemma empty_code_entry_panics:
  "BuildFullCodeMetaList (\<lambda>s. s)
     [(''x'', [\<lparr>dv_Char = ''x'', dv_Divs = [''r''], dv_Pin = [], dv_Set = [], dv_Unicode = []\<rparr>])]
     Map.empty Map.empty =
   Inr [\<lparr>cm_Char = ''x'', cm_Full = [], cm_Code = [], cm_Freq = 0, cm_MDiv = True,
          cm_Simp = False,
          cm_Division = Some \<lparr>dv_Char = ''x'', dv_Divs = [''r''], dv_Pin = [], dv_Set = [],
                                 dv_Unicode = []\<rparr>\<rparr>] \<and>
   BuildSimpleCodeList
     [\<lparr>cm_Char = ''x'', cm_Full = [], cm_Code = [], cm_Freq = 0, cm_MDiv = True,
        cm_Simp = False,
        cm_Division = Some \<lparr>dv_Char = ''x'', dv_Divs = [''r''], dv_Pin = [], dv_Set = [],
                               dv_Unicode = []\<rparr>\<rparr>]
     (\<lambda>n :: nat. if n = 1 then 1 :: int else 0) [] = Inl IndexOutOfRange"
  by code_simp

text \<open>
  Claim C6, as amended.  The repository holds two revisions of \<open>BuildFullCodeMetaList\<close>.
  The list returned by the one in \<open>gen_ll/tools/builder.go\<close> is sorted by code
  ascending, then frequency descending, then character ascending, as the claim says.  The
  other revision ends with \<open>sortCharMetaByFreq\<close>: its list is sorted by frequency
  descending, then code ascending, then character ascending.
\<close>

theorem full_code_list_order:
  "(BuildFullCodeMetaList uni table m freqSet = Inr out \<longrightarrow> sorted_wrt byCodeOrder out) \<and>
   (BuildFullCodeMetaList_byFreq uni table m freqSet = Inr out' \<longrightarrow> sorted_wrt byFreqOrder out')"
  by (auto simp: BuildFullCodeMetaList_def BuildFullCodeMetaList_byFreq_def
        sorted_sortCharMetaByCode sorted_sortCharMetaByFreq split: sum.splits)

theorem full_code_list_order_witness:
  "BuildFullCodeMetaList (\<lambda>s. s) [(''x'', [\<lparr>dv_Char = ''x'', dv_Divs = [''r''], dv_Pin = [], dv_Set = [], dv_Unicode = []\<rparr>]),
      (''y'', [\<lparr>dv_Char = ''y'', dv_Divs = [''s''], dv_Pin = [], dv_Set = [], dv_Unicode = []\<rparr>])]
     [''r'' \<mapsto> ''b'', ''s'' \<mapsto> ''a''] [''x'' \<mapsto> 10, ''y'' \<mapsto> 5] =
     Inr [\<lparr>cm_Char = ''y'', cm_Full = ''a'', cm_Code = ''aaaa'', cm_Freq = 5, cm_MDiv = True,
        cm_Simp = False, cm_Division = Some \<lparr>dv_Char = ''y'', dv_Divs = [''s''], dv_Pin = [], dv_Set = [], dv_Unicode = []\<rparr>\<rparr>,
          \<lparr>cm_Char = ''x'', cm_Full = ''b'', cm_Code = ''bbbb'', cm_Freq = 10, cm_MDiv = True,
        cm_Simp = False, cm_Division = Some \<lparr>dv_Char = ''x'', dv_Divs = [''r''], dv_Pin = [], dv_Set = [], dv_Unicode = []\<rparr>\<rparr>] \<and>
   sorted_wrt byCodeOrder
         [\<lparr>cm_Char = ''y'', cm_Full = ''a'', cm_Code = ''aaaa'', cm_Freq = 5, cm_MDiv = True,
        cm_Simp = False, cm_Division = Some \<lparr>dv_Char = ''y'', dv_Divs = [''s''], dv_Pin = [], dv_Set = [], dv_Unicode = []\<rparr>\<rparr>,
          \<lparr>cm_Char = ''x'', cm_Full = ''b'', cm_Code = ''bbbb'', cm_Freq = 10, cm_MDiv = True,
        cm_Simp = False, cm_Division = Some \<lparr>dv_Char = ''x'', dv_Divs = [''r''], dv_Pin = [], dv_Set = [], dv_Unicode = []\<rparr>\<rparr>] \<and>
   BuildFullCodeMetaList_byFreq (\<lambda>s. s) [(''x'', [\<lparr>dv_Char = ''x'', dv_Divs = [''r''], dv_Pin = [], dv_Set = [], dv_Unicode = []\<rparr>]),
      (''y'', [\<lparr>dv_Char = ''y'', dv_Divs = [''s''], dv_Pin = [], dv_Set = [], dv_Unicode = []\<rparr>])]
     [''r'' \<mapsto> ''b'', ''s'' \<mapsto> ''a''] [''x'' \<mapsto> 10, ''y'' \<mapsto> 5] =
     Inr [\<lparr>cm_Char = ''x'', cm_Full = ''b'', cm_Code = ''bbbb'', cm_Freq = 10, cm_MDiv = True,
        cm_Simp = False, cm_Division = Some \<lparr>dv_Char = ''x'', dv_Divs = [''r''], dv_Pin = [], dv_Set = [], dv_Unicode = []\<rparr>\<rparr>,
          \<lparr>cm_Char = ''y'', cm_Full = ''a'', cm_Code = ''aaaa'', cm_Freq = 5, cm_MDiv = True,
        cm_Simp = False, cm_Division = Some \<lparr>dv_Char = ''y'', dv_Divs = [''s''], dv_Pin = [], dv_Set = [], dv_Unicode = []\<rparr>\<rparr>] \<and>
   sorted_wrt byFreqOrder
         [\<lparr>cm_Char = ''x'', cm_Full = ''b'', cm_Code = ''bbbb'', cm_Freq = 10, cm_MDiv = True,
        cm_Simp = False, cm_Division = Some \<lparr>dv_Char = ''x'', dv_Divs = [''r''], dv_Pin = [], dv_Set = [], dv_Unicode = []\<rparr>\<rparr>,
          \<lparr>cm_Char = ''y'', cm_Full = ''a'', cm_Code = ''aaaa'', cm_Freq = 5, cm_MDiv = True,
        cm_Simp = False, cm_Division = Some \<lparr>dv_Char = ''y'', dv_Divs = [''s''], dv_Pin = [], dv_Set = [], dv_Unicode = []\<rparr>\<rparr>]"
proof -
  have a: "BuildFullCodeMetaList (\<lambda>s. s) [(''x'', [\<lparr>dv_Char = ''x'', dv_Divs = [''r''], dv_Pin = [], dv_Set = [], dv_Unicode = []\<rparr>]),
      (''y'', [\<lparr>dv_Char = ''y'', dv_Divs = [''s''], dv_Pin = [], dv_Set = [], dv_Unicode = []\<rparr>])]
     [''r'' \<mapsto> ''b'', ''s'' \<mapsto> ''a''] [''x'' \<mapsto> 10, ''y'' \<mapsto> 5] =
     Inr [\<lparr>cm_Char = ''y'', cm_Full = ''a'', cm_Code = ''aaaa'', cm_Freq = 5, cm_MDiv = True,
        cm_Simp = False, cm_Division = Some \<lparr>dv_Char = ''y'', dv_Divs = [''s''], dv_Pin = [], dv_Set = [], dv_Unicode = []\<rparr>\<rparr>,
          \<lparr>cm_Char = ''x'', cm_Full = ''b'', cm_Code = ''bbbb'', cm_Freq = 10, cm_MDiv = True,
        cm_Simp = False, cm_Division = Some \<lparr>dv_Char = ''x'', dv_Divs = [''r''], dv_Pin = [], dv_Set = [], dv_Unicode = []\<rparr>\<rparr>]"
    by code_simp
  have b: "BuildFullCodeMetaList_byFreq (\<lambda>s. s) [(''x'', [\<lparr>dv_Char = ''x'', dv_Divs = [''r''], dv_Pin = [], dv_Set = [], dv_Unicode = []\<rparr>]),
      (''y'', [\<lparr>dv_Char = ''y'', dv_Divs = [''s''], dv_Pin = [], dv_Set = [], dv_Unicode = []\<rparr>])]
     [''r'' \<mapsto> ''b'', ''s'' \<mapsto> ''a''] [''x'' \<mapsto> 10, ''y'' \<mapsto> 5] =
     Inr [\<lparr>cm_Char = ''x'', cm_Full = ''b'', cm_Code = ''bbbb'', cm_Freq = 10, cm_MDiv = True,
        cm_Simp = False, cm_Division = Some \<lparr>dv_Char = ''x'', dv_Divs = [''r''], dv_Pin = [], dv_Set = [], dv_Unicode = []\<rparr>\<rparr>,
          \<lparr>cm_Char = ''y'', cm_Full = ''a'', cm_Code = ''aaaa'', cm_Freq = 5, cm_MDiv = True,
        cm_Simp = False, cm_Division = Some \<lparr>dv_Char = ''y'', dv_Divs = [''s''], dv_Pin = [], dv_Set = [], dv_Unicode = []\<rparr>\<rparr>]"
    by code_simp
  from full_code_list_order[of "\<lambda>s. s" _ _ _ _ _] a b show ?thesis by blast
qed

text \<open>
  On the same table the frequency-sorted revision returns the entry with code \<open>bbbb\<close>
  before the entry with code \<open>aaaa\<close>: its list is not sorted by code.
\<close>

theorem full_code_list_order_counterexample:
  "BuildFullCodeMetaList_byFreq (\<lambda>s. s) [(''x'', [\<lparr>dv_Char = ''x'', dv_Divs = [''r''], dv_Pin = [], dv_Set = [], dv_Unicode = []\<rparr>]),
      (''y'', [\<lparr>dv_Char = ''y'', dv_Divs = [''s''], dv_Pin = [], dv_Set = [], dv_Unicode = []\<rparr>])]
     [''r'' \<mapsto> ''b'', ''s'' \<mapsto> ''a''] [''x'' \<mapsto> 10, ''y'' \<mapsto> 5] =
     Inr [\<lparr>cm_Char = ''x'', cm_Full = ''b'', cm_Code = ''bbbb'', cm_Freq = 10, cm_MDiv = True,
        cm_Simp = False, cm_Division = Some \<lparr>dv_Char = ''x'', dv_Divs = [''r''], dv_Pin = [], dv_Set = [], dv_Unicode = []\<rparr>\<rparr>,
          \<lparr>cm_Char = ''y'', cm_Full = ''a'', cm_Code = ''aaaa'', cm_Freq = 5, cm_MDiv = True,
        cm_Simp = False, cm_Division = Some \<lparr>dv_Char = ''y'', dv_Divs = [''s''], dv_Pin = [], dv_Set = [], dv_Unicode = []\<rparr>\<rparr>] \<and>
   \<not> sorted_wrt byCodeOrder
         [\<lparr>cm_Char = ''x'', cm_Full = ''b'', cm_Code = ''bbbb'', cm_Freq = 10, cm_MDiv = True,
        cm_Simp = False, cm_Division = Some \<lparr>dv_Char = ''x'', dv_Divs = [''r''], dv_Pin = [], dv_Set = [], dv_Unicode = []\<rparr>\<rparr>,
          \<lparr>cm_Char = ''y'', cm_Full = ''a'', cm_Code = ''aaaa'', cm_Freq = 5, cm_MDiv = True,
        cm_Simp = False, cm_Division = Some \<lparr>dv_Char = ''y'', dv_Divs = [''s''], dv_Pin = [], dv_Set = [], dv_Unicode = []\<rparr>\<rparr>]"
  by code_simp

subsection \<open>Word codes\<close>

text \<open>
  Claim C2.  \<open>BuildWordsFullCode\<close> maps every entry, in order, to the word code of the
  specification: for a two-character word the first two symbols of each character's code
  (both codes of length at least 2), for a three-character word the first symbol of the
  first two codes and the first two symbols of the third, from four characters on the
  first symbol of the codes of the first, second, third and last character; an entry
  whose codes are missing or too short contributes nothing, and nothing fails.  The
  witness evaluates the examples of the specification: codes \<open>qaaa\<close> and \<open>wbbc\<close> give
  \<open>qawb\<close>, and first symbols \<open>q\<close>, \<open>w\<close>, \<open>e\<close>, \<open>r\<close> give \<open>qwer\<close>; its last word
  has two characters of three bytes each.
\<close>

theorem word_full_code:
  "BuildWordsFullCode wordEntries charCodeMap =
     concat (map (wordCodeEntry charCodeMap) wordEntries)"
proof (induction wordEntries)
  case Nil
  then show ?case by simp
next
  case (Cons entry rest)
  show ?case
  proof (cases "wordCodeSpec (runes (we_Word entry)) charCodeMap")
    case None
    then show ?thesis using Cons by (simp add: wordFullCode_spec wordCodeEntry_def)
  next
    case (Some code)
    then show ?thesis using Cons wordCodeSpec_nonempty[OF Some]
      by (simp add: wordFullCode_spec wordCodeEntry_def)
  qed
qed

theorem word_full_code_witness:
  "BuildWordsFullCode
     [\<lparr>we_Word = ''ab'', we_Weight = ''10''\<rparr>, \<lparr>we_Word = ''abcde'', we_Weight = []\<rparr>,
      \<lparr>we_Word = ''az'', we_Weight = []\<rparr>, \<lparr>we_Word = ''a'', we_Weight = []\<rparr>,
      \<lparr>we_Word = ''abc'', we_Weight = []\<rparr>,
      \<lparr>we_Word = [char_of (228 :: nat), char_of (184 :: nat), char_of (173 :: nat),
                   char_of (230 :: nat), char_of (150 :: nat), char_of (135 :: nat)],
         we_Weight = ''7''\<rparr>]
     [''a'' \<mapsto> ''qaaa'', ''b'' \<mapsto> ''wbbc'', ''c'' \<mapsto> ''eccc'', ''e'' \<mapsto> ''rddd'',
      [char_of (228 :: nat), char_of (184 :: nat), char_of (173 :: nat)] \<mapsto> ''kiii'',
      [char_of (230 :: nat), char_of (150 :: nat), char_of (135 :: nat)] \<mapsto> ''yxxx''] =
   [\<lparr>wc_Word = ''ab'', wc_Code = ''qawb'', wc_Weight = ''10''\<rparr>,
    \<lparr>wc_Word = ''abcde'', wc_Code = ''qwer'', wc_Weight = []\<rparr>,
    \<lparr>wc_Word = ''abc'', wc_Code = ''qwec'', wc_Weight = []\<rparr>,
    \<lparr>wc_Word = [char_of (228 :: nat), char_of (184 :: nat), char_of (173 :: nat),
                   char_of (230 :: nat), char_of (150 :: nat), char_of (135 :: nat)],
       wc_Code = ''kiyx'', wc_Weight = ''7''\<rparr>]"
proof -
  have "concat (map (wordCodeEntry
     [''a'' \<mapsto> ''qaaa'', ''b'' \<mapsto> ''wbbc'', ''c'' \<mapsto> ''eccc'', ''e'' \<mapsto> ''rddd'',
      [char_of (228 :: nat), char_of (184 :: nat), char_of (173 :: nat)] \<mapsto> ''kiii'',
      [char_of (230 :: nat), char_of (150 :: nat), char_of (135 :: nat)] \<mapsto> ''yxxx''])
     [\<lparr>we_Word = ''ab'', we_Weight = ''10''\<rparr>, \<lparr>we_Word = ''abcde'', we_Weight = []\<rparr>,
      \<lparr>we_Word = ''az'', we_Weight = []\<rparr>, \<lparr>we_Word = ''a'', we_Weight = []\<rparr>,
      \<lparr>we_Word = ''abc'', we_Weight = []\<rparr>,
      \<lparr>we_Word = [char_of (228 :: nat), char_of (184 :: nat), char_of (173 :: nat),
                   char_of (230 :: nat), char_of (150 :: nat), char_of (135 :: nat)],
         we_Weight = ''7''\<rparr>]) =
   [\<lparr>wc_Word = ''ab'', wc_Code = ''qawb'', wc_Weight = ''10''\<rparr>,
    \<lparr>wc_Word = ''abcde'', wc_Code = ''qwer'', wc_Weight = []\<rparr>,
    \<lparr>wc_Word = ''abc'', wc_Code = ''qwec'', wc_Weight = []\<rparr>,
    \<lparr>wc_Word = [char_of (228 :: nat), char_of (184 :: nat), char_of (173 :: nat),
                   char_of (230 :: nat), char_of (150 :: nat), char_of (135 :: nat)],
       wc_Code = ''kiyx'', wc_Weight = ''7''\<rparr>]"
    by code_simp
  then show ?thesis by (simp only: word_full_code)
qed

subsection \<open>Simplified codes of single characters\<close>

text \<open>
  Claim C9.  When \<open>BuildSimpleCodeList\<close> returns a list, its entries come one for one,
  in order, from distinct entries of the full-code list (a sub-multiset of it), and each
  carries the character and frequency of the entry it comes from and a code different
  from that entry's full code: a candidate equal to the full code adds no entry.
\<close>

theorem simplified_differs:
  assumes "BuildSimpleCodeList fullCodeList lim noSimp = Inr out"
  shows "\<exists>origins. mset origins \<subseteq># mset fullCodeList \<and> list_all2 simplifiedFrom origins out"
proof -
  from simplifyLoop_origins[OF assms[unfolded BuildSimpleCodeList_def]]
  obtain origins where o: "subseq origins (sortSlice (\<lambda>a b. cm_Freq b < cm_Freq a) fullCodeList)"
      "list_all2 simplifiedFrom origins out" by blast
  from subseq_mset[OF o(1)] have "mset origins \<subseteq># mset fullCodeList"
    by (simp only: mset_sortSlice)
  with o(2) show ?thesis by blast
qed

theorem simplified_differs_witness:
  "BuildSimpleCodeList
     [\<lparr>cm_Char = ''x'', cm_Full = [], cm_Code = ''abcd'', cm_Freq = 2, cm_MDiv = True,
        cm_Simp = False, cm_Division = None\<rparr>,
      \<lparr>cm_Char = ''y'', cm_Full = [], cm_Code = ''abce'', cm_Freq = 1, cm_MDiv = True,
        cm_Simp = False, cm_Division = None\<rparr>]
     (\<lambda>n. if n = 1 \<or> n = 2 then 4 else 0) [] =
   Inr [\<lparr>cm_Char = ''x'', cm_Full = [], cm_Code = ''ad'', cm_Freq = 2, cm_MDiv = False,
        cm_Simp = True, cm_Division = None\<rparr>,
      \<lparr>cm_Char = ''y'', cm_Full = [], cm_Code = ''ae'', cm_Freq = 1, cm_MDiv = False,
        cm_Simp = True, cm_Division = None\<rparr>] \<and>
   (\<exists>origins. mset origins \<subseteq># mset
     [\<lparr>cm_Char = ''x'', cm_Full = [], cm_Code = ''abcd'', cm_Freq = 2, cm_MDiv = True,
        cm_Simp = False, cm_Division = None\<rparr>,
      \<lparr>cm_Char = ''y'', cm_Full = [], cm_Code = ''abce'', cm_Freq = 1, cm_MDiv = True,
        cm_Simp = False, cm_Division = None\<rparr>] \<and>
     list_all2 simplifiedFrom origins
     [\<lparr>cm_Char = ''x'', cm_Full = [], cm_Code = ''ad'', cm_Freq = 2, cm_MDiv = False,
        cm_Simp = True, cm_Division = None\<rparr>,
      \<lparr>cm_Char = ''y'', cm_Full = [], cm_Code = ''ae'', cm_Freq = 1, cm_MDiv = False,
        cm_Simp = True, cm_Division = None\<rparr>])"
proof -
  have run: "BuildSimpleCodeList
     [\<lparr>cm_Char = ''x'', cm_Full = [], cm_Code = ''abcd'', cm_Freq = 2, cm_MDiv = True,
        cm_Simp = False, cm_Division = None\<rparr>,
      \<lparr>cm_Char = ''y'', cm_Full = [], cm_Code = ''abce'', cm_Freq = 1, cm_MDiv = True,
        cm_Simp = False, cm_Division = None\<rparr>]
     (\<lambda>n. if n = 1 \<or> n = 2 then 4 else 0) [] =
   Inr [\<lparr>cm_Char = ''x'', cm_Full = [], cm_Code = ''ad'', cm_Freq = 2, cm_MDiv = False,
        cm_Simp = True, cm_Division = None\<rparr>,
      \<lparr>cm_Char = ''y'', cm_Full = [], cm_Code = ''ae'', cm_Freq = 1, cm_MDiv = False,
        cm_Simp = True, cm_Division = None\<rparr>]"
    by code_simp
  from simplified_differs[OF run] run show ?thesis by blast
qed

text \<open>
  Claim C10.  The codes of the list that \<open>BuildSimpleCodeList\<close> returns are pairwise
  distinct: every accepted candidate enters the one set \<open>usedCodes\<close>, and a candidate
  found there is never accepted.
\<close>

theorem simple_codes_distinct:
  "BuildSimpleCodeList fullCodeList lim noSimp = Inr out \<Longrightarrow> distinct (map cm_Code out)"
  unfolding BuildSimpleCodeList_def by (rule simplifyLoop_distinct)

theorem simple_codes_distinct_witness:
  "BuildSimpleCodeList
     [\<lparr>cm_Char = ''x'', cm_Full = [], cm_Code = ''abcd'', cm_Freq = 2, cm_MDiv = True,
        cm_Simp = False, cm_Division = None\<rparr>,
      \<lparr>cm_Char = ''y'', cm_Full = [], cm_Code = ''abce'', cm_Freq = 1, cm_MDiv = True,
        cm_Simp = False, cm_Division = None\<rparr>]
     (\<lambda>n. if n = 1 \<or> n = 2 then 4 else 0) [] =
   Inr [\<lparr>cm_Char = ''x'', cm_Full = [], cm_Code = ''ad'', cm_Freq = 2, cm_MDiv = False,
        cm_Simp = True, cm_Division = None\<rparr>,
      \<lparr>cm_Char = ''y'', cm_Full = [], cm_Code = ''ae'', cm_Freq = 1, cm_MDiv = False,
        cm_Simp = True, cm_Division = None\<rparr>] \<and>
   distinct (map cm_Code
     [\<lparr>cm_Char = ''x'', cm_Full = [], cm_Code = ''ad'', cm_Freq = 2, cm_MDiv = False,
        cm_Simp = True, cm_Division = None\<rparr>,
      \<lparr>cm_Char = ''y'', cm_Full = [], cm_Code = ''ae'', cm_Freq = 1, cm_MDiv = False,
        cm_Simp = True, cm_Division = None\<rparr>])"
proof -
  have run: "BuildSimpleCodeList
     [\<lparr>cm_Char = ''x'', cm_Full = [], cm_Code = ''abcd'', cm_Freq = 2, cm_MDiv = True,
        cm_Simp = False, cm_Division = None\<rparr>,
      \<lparr>cm_Char = ''y'', cm_Full = [], cm_Code = ''abce'', cm_Freq = 1, cm_MDiv = True,
        cm_Simp = False, cm_Division = None\<rparr>]
     (\<lambda>n. if n = 1 \<or> n = 2 then 4 else 0) [] =
   Inr [\<lparr>cm_Char = ''x'', cm_Full = [], cm_Code = ''ad'', cm_Freq = 2, cm_MDiv = False,
        cm_Simp = True, cm_Division = None\<rparr>,
      \<lparr>cm_Char = ''y'', cm_Full = [], cm_Code = ''ae'', cm_Freq = 1, cm_MDiv = False,
        cm_Simp = True, cm_Division = None\<rparr>]"
    by code_simp
  from simple_codes_distinct[OF run] run show ?thesis by blast
qed

subsection \<open>Quotas\<close>

text \<open>
  Claim C3, as amended.  In the list that \<open>BuildSimpleCodeList\<close> returns, for a prefix
  length \<open>i\<close> with quota \<open>Q > 0\<close> and a prefix \<open>p\<close> of \<open>i\<close> symbols, the entries whose
  code has the target length of \<open>i\<close> and starts with \<open>p\<close> number at most \<open>Q\<close>, for
  every \<open>i\<close> other than 2, and for \<open>i = 2\<close> when prefix length 3 has no positive quota
  and the full codes are ASCII.  In the list that \<open>BuildWordsSimpleCode\<close> returns, the
  entries that carry a base code \<open>b\<close> number at most the quota of the length of \<open>b\<close>,
  when that quota is positive.  (Prefix lengths 2 and 3 share the target length 3: a bare
  three-symbol prefix is accepted without a look at the bucket of its two-symbol prefix.)
\<close>

theorem quota_respected:
  "(BuildSimpleCodeList fullCodeList lim noSimp = Inr out \<and> 0 < lim i \<and> length p = i \<and>
      (i = 2 \<longrightarrow> lim 3 \<le> 0 \<and> asciiFullCodes fullCodeList) \<longrightarrow>
      int (samePrefixCount out (targetLength i) p) \<le> lim i) \<and>
   (0 < wlim (length b) \<longrightarrow>
      int (codeCount b (BuildWordsSimpleCode wordCodes wlim)) \<le> wlim (length b))"
proof (intro conjI impI)
  assume a: "BuildSimpleCodeList fullCodeList lim noSimp = Inr out \<and> 0 < lim i \<and> length p = i \<and>
      (i = 2 \<longrightarrow> lim 3 \<le> 0 \<and> asciiFullCodes fullCodeList)"
  then have run: "simplifyLoop lim (set noSimp)
       (sortSlice (\<lambda>a b. cm_Freq b < cm_Freq a) fullCodeList) [] {} = Inr out"
    by (simp only: BuildSimpleCodeList_def)
  from a have q: "0 < lim i" and p: "length p = i" by blast+
  have cond: "i \<noteq> 2 \<or> (lim 3 \<le> 0 \<and>
       (\<forall>m \<in> set (sortSlice (\<lambda>a b. cm_Freq b < cm_Freq a) fullCodeList). isASCII (cm_Code m)))"
  proof (cases "i = 2")
    case True
    with a have "lim 3 \<le> 0" "asciiFullCodes fullCodeList" by blast+
    then show ?thesis by (simp add: asciiFullCodes_def set_sortSlice)
  next
    case False
    then show ?thesis by simp
  qed
  show "int (samePrefixCount out (targetLength i) p) \<le> lim i"
    by (rule simplifyLoop_quota[OF run q p cond])
next
  assume q: "0 < wlim (length b)"
  show "int (codeCount b (BuildWordsSimpleCode wordCodes wlim)) \<le> wlim (length b)"
  proof (cases "0 < codeCount b (allocWords wordCodes wlim)")
    case True
    from allocWords_counts[OF this] show ?thesis by (simp only: BuildWordsSimpleCode_def)
  next
    case False
    then have "codeCount b (allocWords wordCodes wlim) = 0" by simp
    with q show ?thesis by (simp add: BuildWordsSimpleCode_def)
  qed
qed

theorem quota_respected_witness:
  "BuildSimpleCodeList
     [\<lparr>cm_Char = ''x'', cm_Full = [], cm_Code = ''abcd'', cm_Freq = 2, cm_MDiv = True,
        cm_Simp = False, cm_Division = None\<rparr>,
      \<lparr>cm_Char = ''y'', cm_Full = [], cm_Code = ''abce'', cm_Freq = 1, cm_MDiv = True,
        cm_Simp = False, cm_Division = None\<rparr>]
     (\<lambda>n :: nat. if n = 1 \<or> n = 2 then 4 :: int else 0) [] =
   Inr [\<lparr>cm_Char = ''x'', cm_Full = [], cm_Code = ''ad'', cm_Freq = 2, cm_MDiv = False,
        cm_Simp = True, cm_Division = None\<rparr>,
      \<lparr>cm_Char = ''y'', cm_Full = [], cm_Code = ''ae'', cm_Freq = 1, cm_MDiv = False,
        cm_Simp = True, cm_Division = None\<rparr>] \<and>
   0 < (\<lambda>n :: nat. if n = 1 \<or> n = 2 then 4 :: int else 0) 2 \<and> length ''ab'' = 2 \<and>
   (\<lambda>n :: nat. if n = 1 \<or> n = 2 then 4 :: int else 0) 3 \<le> 0 \<and>
   asciiFullCodes
     [\<lparr>cm_Char = ''x'', cm_Full = [], cm_Code = ''abcd'', cm_Freq = 2, cm_MDiv = True,
        cm_Simp = False, cm_Division = None\<rparr>,
      \<lparr>cm_Char = ''y'', cm_Full = [], cm_Code = ''abce'', cm_Freq = 1, cm_MDiv = True,
        cm_Simp = False, cm_Division = None\<rparr>] \<and>
   int (samePrefixCount
     [\<lparr>cm_Char = ''x'', cm_Full = [], cm_Code = ''ad'', cm_Freq = 2, cm_MDiv = False,
        cm_Simp = True, cm_Division = None\<rparr>,
      \<lparr>cm_Char = ''y'', cm_Full = [], cm_Code = ''ae'', cm_Freq = 1, cm_MDiv = False,
        cm_Simp = True, cm_Division = None\<rparr>]
     (targetLength 2) ''ab'') \<le> (\<lambda>n :: nat. if n = 1 \<or> n = 2 then 4 :: int else 0) 2 \<and>
   0 < (\<lambda>n :: nat. if n = 1 \<or> n = 2 \<or> n = 3 then 1 :: int else 0) (length ''q'') \<and>
   int (codeCount ''q'' (BuildWordsSimpleCode
     [\<lparr>wc_Word = ''ab'', wc_Code = ''qawb'', wc_Weight = ''10''\<rparr>,
      \<lparr>wc_Word = ''abcde'', wc_Code = ''qwer'', wc_Weight = []\<rparr>,
      \<lparr>wc_Word = ''abc'', wc_Code = ''qwec'', wc_Weight = ''30''\<rparr>,
      \<lparr>wc_Word = ''ac'', wc_Code = ''qaec'', wc_Weight = ''5''\<rparr>]
     (\<lambda>n :: nat. if n = 1 \<or> n = 2 \<or> n = 3 then 1 :: int else 0))) \<le> (\<lambda>n :: nat. if n = 1 \<or> n = 2 \<or> n = 3 then 1 :: int else 0) (length ''q'')"
proof -
  have run: "BuildSimpleCodeList
     [\<lparr>cm_Char = ''x'', cm_Full = [], cm_Code = ''abcd'', cm_Freq = 2, cm_MDiv = True,
        cm_Simp = False, cm_Division = None\<rparr>,
      \<lparr>cm_Char = ''y'', cm_Full = [], cm_Code = ''abce'', cm_Freq = 1, cm_MDiv = True,
        cm_Simp = False, cm_Division = None\<rparr>]
     (\<lambda>n :: nat. if n = 1 \<or> n = 2 then 4 :: int else 0) [] =
   Inr [\<lparr>cm_Char = ''x'', cm_Full = [], cm_Code = ''ad'', cm_Freq = 2, cm_MDiv = False,
        cm_Simp = True, cm_Division = None\<rparr>,
      \<lparr>cm_Char = ''y'', cm_Full = [], cm_Code = ''ae'', cm_Freq = 1, cm_MDiv = False,
        cm_Simp = True, cm_Division = None\<rparr>]"
    by code_simp
  have asc: "asciiFullCodes
     [\<lparr>cm_Char = ''x'', cm_Full = [], cm_Code = ''abcd'', cm_Freq = 2, cm_MDiv = True,
        cm_Simp = False, cm_Division = None\<rparr>,
      \<lparr>cm_Char = ''y'', cm_Full = [], cm_Code = ''abce'', cm_Freq = 1, cm_MDiv = True,
        cm_Simp = False, cm_Division = None\<rparr>]"
    by (simp add: asciiFullCodes_def isASCII_def)
  have q: "0 < (\<lambda>n :: nat. if n = 1 \<or> n = 2 then 4 :: int else 0) 2" "length ''ab'' = 2" "(\<lambda>n :: nat. if n = 1 \<or> n = 2 then 4 :: int else 0) 3 \<le> 0" "0 < (\<lambda>n :: nat. if n = 1 \<or> n = 2 \<or> n = 3 then 1 :: int else 0) (length ''q'')"
    by simp_all
  from quota_respected[of
     "[\<lparr>cm_Char = ''x'', cm_Full = [], cm_Code = ''abcd'', cm_Freq = 2, cm_MDiv = True,
        cm_Simp = False, cm_Division = None\<rparr>,
      \<lparr>cm_Char = ''y'', cm_Full = [], cm_Code = ''abce'', cm_Freq = 1, cm_MDiv = True,
        cm_Simp = False, cm_Division = None\<rparr>]"
     "(\<lambda>n :: nat. if n = 1 \<or> n = 2 then 4 :: int else 0)" "[]"
     "[\<lparr>cm_Char = ''x'', cm_Full = [], cm_Code = ''ad'', cm_Freq = 2, cm_MDiv = False,
        cm_Simp = True, cm_Division = None\<rparr>,
      \<lparr>cm_Char = ''y'', cm_Full = [], cm_Code = ''ae'', cm_Freq = 1, cm_MDiv = False,
        cm_Simp = True, cm_Division = None\<rparr>]"
     2 "''ab''" "(\<lambda>n :: nat. if n = 1 \<or> n = 2 \<or> n = 3 then 1 :: int else 0)" "''q''"
     "[\<lparr>wc_Word = ''ab'', wc_Code = ''qawb'', wc_Weight = ''10''\<rparr>,
      \<lparr>wc_Word = ''abcde'', wc_Code = ''qwer'', wc_Weight = []\<rparr>,
      \<lparr>wc_Word = ''abc'', wc_Code = ''qwec'', wc_Weight = ''30''\<rparr>,
      \<lparr>wc_Word = ''ac'', wc_Code = ''qaec'', wc_Weight = ''5''\<rparr>]"]
    run asc q
  show ?thesis by blast
qed

text \<open>
  The claim fails for prefix length 2 with quotas 1 at prefix lengths 2 and 3: the full
  codes \<open>abcd\<close> and \<open>abce\<close> give the simplified codes \<open>abd\<close> and \<open>abc\<close>, two codes of
  target length 3 with the prefix \<open>ab\<close>.
\<close>

theorem quota_respected_counterexample:
  "BuildSimpleCodeList
     [\<lparr>cm_Char = ''x'', cm_Full = [], cm_Code = ''abcd'', cm_Freq = 2, cm_MDiv = True,
        cm_Simp = False, cm_Division = None\<rparr>,
      \<lparr>cm_Char = ''y'', cm_Full = [], cm_Code = ''abce'', cm_Freq = 1, cm_MDiv = True,
        cm_Simp = False, cm_Division = None\<rparr>]
     (\<lambda>n :: nat. if n = 2 \<or> n = 3 then 1 :: int else 0) [] =
   Inr [\<lparr>cm_Char = ''x'', cm_Full = [], cm_Code = ''abd'', cm_Freq = 2, cm_MDiv = False,
        cm_Simp = True, cm_Division = None\<rparr>,
      \<lparr>cm_Char = ''y'', cm_Full = [], cm_Code = ''abc'', cm_Freq = 1, cm_MDiv = False,
        cm_Simp = True, cm_Division = None\<rparr>] \<and>
   0 < (\<lambda>n :: nat. if n = 2 \<or> n = 3 then 1 :: int else 0) 2 \<and> length ''ab'' = 2 \<and>
   \<not> int (samePrefixCount
     [\<lparr>cm_Char = ''x'', cm_Full = [], cm_Code = ''abd'', cm_Freq = 2, cm_MDiv = False,
        cm_Simp = True, cm_Division = None\<rparr>,
      \<lparr>cm_Char = ''y'', cm_Full = [], cm_Code = ''abc'', cm_Freq = 1, cm_MDiv = False,
        cm_Simp = True, cm_Division = None\<rparr>]
     (targetLength 2) ''ab'') \<le> (\<lambda>n :: nat. if n = 2 \<or> n = 3 then 1 :: int else 0) 2"
  by code_simp

subsection \<open>Placeholder back-fill\<close>

text \<open>
  Claim C4.  In the revision of \<open>BuildWordsSimpleCode\<close> with the back-fill, for every
  base code \<open>b\<close> of one to three keys of the alphabet whose length has a quota \<open>Q > 0\<close>,
  the function returns a list in which exactly \<open>Q\<close> entries carry \<open>b\<close>: the real
  entries of \<open>b\<close>, in the order the sort left them, followed by the placeholder tokens
  that come after as many tokens as there are real entries; so all \<open>Q\<close> tokens when no
  real entry carries \<open>b\<close>.  The witness runs two words under a quota of 2 at length 1:
  the code \<open>q\<close> holds its word and the second token, the code \<open>y\<close> both tokens.
\<close>

theorem backfill_exact:
  "0 < lim (length b) \<and> isBaseCode b \<longrightarrow>
     (\<exists>out. BuildWordsSimpleCode_backfill wordCodes lim = Inr out \<and>
        int (codeCount b out) = lim (length b) \<and>
        codeEntries b out =
          codeEntries b (SortWordSimpleCodes (BuildWordsSimpleCode wordCodes lim)) @
          placeholderEntries b
            (drop (codeCount b (BuildWordsSimpleCode wordCodes lim))
               (placeholderTokens (lim (length b)))))"
proof
  assume a: "0 < lim (length b) \<and> isBaseCode b"
  then have "b \<in> set (generateAllBaseCodes (length b))"
    using isBaseCode_generated by blast
  with a backfill_entries[of lim b wordCodes] show
    "\<exists>out. BuildWordsSimpleCode_backfill wordCodes lim = Inr out \<and>
        int (codeCount b out) = lim (length b) \<and>
        codeEntries b out =
          codeEntries b (SortWordSimpleCodes (BuildWordsSimpleCode wordCodes lim)) @
          placeholderEntries b
            (drop (codeCount b (BuildWordsSimpleCode wordCodes lim))
               (placeholderTokens (lim (length b))))"
    by blast
qed

theorem backfill_exact_witness:
  "0 < (\<lambda>n :: nat. if n = 1 then 2 :: int else 0) (length ''q'') \<and> isBaseCode ''q'' \<and>
   (\<exists>out. BuildWordsSimpleCode_backfill
      [\<lparr>wc_Word = ''ab'', wc_Code = ''qawb'', wc_Weight = []\<rparr>,
       \<lparr>wc_Word = ''abc'', wc_Code = ''twec'', wc_Weight = []\<rparr>]
      (\<lambda>n :: nat. if n = 1 then 2 :: int else 0) = Inr out \<and>
      int (codeCount ''q'' out) = (\<lambda>n :: nat. if n = 1 then 2 :: int else 0) (length ''q'') \<and>
      codeEntries ''q'' out =
        codeEntries ''q'' (SortWordSimpleCodes (BuildWordsSimpleCode
      [\<lparr>wc_Word = ''ab'', wc_Code = ''qawb'', wc_Weight = []\<rparr>,
       \<lparr>wc_Word = ''abc'', wc_Code = ''twec'', wc_Weight = []\<rparr>]
      (\<lambda>n :: nat. if n = 1 then 2 :: int else 0))) @
        placeholderEntries ''q''
          (drop (codeCount ''q'' (BuildWordsSimpleCode
      [\<lparr>wc_Word = ''ab'', wc_Code = ''qawb'', wc_Weight = []\<rparr>,
       \<lparr>wc_Word = ''abc'', wc_Code = ''twec'', wc_Weight = []\<rparr>]
      (\<lambda>n :: nat. if n = 1 then 2 :: int else 0)))
             (placeholderTokens ((\<lambda>n :: nat. if n = 1 then 2 :: int else 0) (length ''q''))))) \<and>
   (case BuildWordsSimpleCode_backfill
      [\<lparr>wc_Word = ''ab'', wc_Code = ''qawb'', wc_Weight = []\<rparr>,
       \<lparr>wc_Word = ''abc'', wc_Code = ''twec'', wc_Weight = []\<rparr>]
      (\<lambda>n :: nat. if n = 1 then 2 :: int else 0) of
      Inl p \<Rightarrow> []
    | Inr out \<Rightarrow> map ws_Word (codeEntries ''q'' out @ codeEntries ''y'' out)) =
   [''ab'', circled ! 1, circled ! 0, circled ! 1]"
proof -
  have a: "isBaseCode ''q''" by code_simp
  have b: "(case BuildWordsSimpleCode_backfill
      [\<lparr>wc_Word = ''ab'', wc_Code = ''qawb'', wc_Weight = []\<rparr>,
       \<lparr>wc_Word = ''abc'', wc_Code = ''twec'', wc_Weight = []\<rparr>]
      (\<lambda>n :: nat. if n = 1 then 2 :: int else 0) of
      Inl p \<Rightarrow> []
    | Inr out \<Rightarrow> map ws_Word (codeEntries ''q'' out @ codeEntries ''y'' out)) =
   [''ab'', circled ! 1, circled ! 0, circled ! 1]"
    by code_simp
  from backfill_exact[of "(\<lambda>n :: nat. if n = 1 then 2 :: int else 0)" "''q''"
     "[\<lparr>wc_Word = ''ab'', wc_Code = ''qawb'', wc_Weight = []\<rparr>,
       \<lparr>wc_Word = ''abc'', wc_Code = ''twec'', wc_Weight = []\<rparr>]"] a b
  show ?thesis by simp
qed

subsection \<open>Candidate codes\<close>

text \<open>
  Claim C7, as amended.  The repository holds two revisions of \<open>AddCandidateCodes\<close>.  In
  both, whatever sort meeting the promise of \<open>sort.Slice\<close> orders the groups, the output
  has the entries of the input at their positions; the only entry of a code stands
  unchanged; the entries of a code with several entries are arranged by frequency
  descending, and the entry at place \<open>i\<close> of the arrangement receives the \<open>i\<close>-th
  symbol of the ten-symbol alphabet for \<open>i < 10\<close>, and from place 10 on a run of
  \<open>(i - 10) div 10 + 1\<close> page markers \<open>=\<close> followed by the symbol at
  \<open>(i - 10) mod 10\<close>.  In the first revision the entry at place 0 keeps the bare code
  when the code has four bytes; in the second revision it receives the first symbol like
  any other.
\<close>

theorem candidate_codes:
  "(sortsBy higherFreq sortGroup \<longrightarrow>
      suffixedBy newCode entries (AddCandidateCodes sortGroup entries) \<and>
      suffixedBy newCode2 entries (AddCandidateCodes_rev2 sortGroup entries)) \<and>
   newCode code 0 = (if length code = 4 then code else code @ ''_'') \<and>
   newCode2 code 0 = code @ ''_'' \<and>
   (0 < i \<and> i < 10 \<longrightarrow>
      newCode code i = code @ candidateSuffixes ! i \<and>
      newCode2 code i = code @ candidateSuffixes ! i) \<and>
   (10 \<le> i \<longrightarrow>
      newCode code i =
        code @ replicate ((i - 10) div 10 + 1) CHR ''='' @ candidateSuffixes ! ((i - 10) mod 10) \<and>
      newCode2 code i =
        code @ replicate ((i - 10) div 10 + 1) CHR ''='' @ candidateSuffixes ! ((i - 10) mod 10))"
proof (intro conjI impI)
  assume c: "sortsBy higherFreq sortGroup"
  show "suffixedBy newCode entries (AddCandidateCodes sortGroup entries)"
    unfolding AddCandidateCodes_def by (rule addCandidates_suffixed[OF c])
  show "suffixedBy newCode2 entries (AddCandidateCodes_rev2 sortGroup entries)"
    unfolding AddCandidateCodes_rev2_def by (rule addCandidates_suffixed[OF c])
next
  show "newCode code 0 = (if length code = 4 then code else code @ ''_'')"
    by (simp add: newCode_def candidateSuffixes_def)
  show "newCode2 code 0 = code @ ''_''"
    by (simp add: newCode2_def candidateSuffixes_def)
next
  assume "0 < i \<and> i < 10"
  then show "newCode code i = code @ candidateSuffixes ! i"
    "newCode2 code i = code @ candidateSuffixes ! i"
    by (simp_all add: newCode_def newCode2_def)
next
  assume "10 \<le> i"
  then show "newCode code i =
        code @ replicate ((i - 10) div 10 + 1) CHR ''='' @ candidateSuffixes ! ((i - 10) mod 10)"
    "newCode2 code i =
        code @ replicate ((i - 10) div 10 + 1) CHR ''='' @ candidateSuffixes ! ((i - 10) mod 10)"
    by (simp_all add: newCode_def newCode2_def pagedCode_def Let_def)
qed

theorem candidate_codes_witness:
  "sortsBy higherFreq (sortSlice higherFreq) \<and>
   AddCandidateCodes (sortSlice higherFreq)
     [\<lparr>ce_Text = ''t0'', ce_Code = ''ab'', ce_Freq = 10, ce_Source = ''s''\<rparr>,
      \<lparr>ce_Text = ''t1'', ce_Code = ''ab'', ce_Freq = 30, ce_Source = ''s''\<rparr>,
      \<lparr>ce_Text = ''t2'', ce_Code = ''ab'', ce_Freq = 20, ce_Source = ''s''\<rparr>,
      \<lparr>ce_Text = ''t3'', ce_Code = ''abcd'', ce_Freq = 5, ce_Source = ''s''\<rparr>,
      \<lparr>ce_Text = ''t4'', ce_Code = ''abcd'', ce_Freq = 7, ce_Source = ''s''\<rparr>,
      \<lparr>ce_Text = ''t5'', ce_Code = ''zz'', ce_Freq = 1, ce_Source = ''s''\<rparr>] =
     [\<lparr>ce_Text = ''t0'', ce_Code = ''abi'', ce_Freq = 10, ce_Source = ''s''\<rparr>,
      \<lparr>ce_Text = ''t1'', ce_Code = ''ab_'', ce_Freq = 30, ce_Source = ''s''\<rparr>,
      \<lparr>ce_Text = ''t2'', ce_Code = ''abe'', ce_Freq = 20, ce_Source = ''s''\<rparr>,
      \<lparr>ce_Text = ''t3'', ce_Code = ''abcde'', ce_Freq = 5, ce_Source = ''s''\<rparr>,
      \<lparr>ce_Text = ''t4'', ce_Code = ''abcd'', ce_Freq = 7, ce_Source = ''s''\<rparr>,
      \<lparr>ce_Text = ''t5'', ce_Code = ''zz'', ce_Freq = 1, ce_Source = ''s''\<rparr>] \<and>
   suffixedBy newCode
     [\<lparr>ce_Text = ''t0'', ce_Code = ''ab'', ce_Freq = 10, ce_Source = ''s''\<rparr>,
      \<lparr>ce_Text = ''t1'', ce_Code = ''ab'', ce_Freq = 30, ce_Source = ''s''\<rparr>,
      \<lparr>ce_Text = ''t2'', ce_Code = ''ab'', ce_Freq = 20, ce_Source = ''s''\<rparr>,
      \<lparr>ce_Text = ''t3'', ce_Code = ''abcd'', ce_Freq = 5, ce_Source = ''s''\<rparr>,
      \<lparr>ce_Text = ''t4'', ce_Code = ''abcd'', ce_Freq = 7, ce_Source = ''s''\<rparr>,
      \<lparr>ce_Text = ''t5'', ce_Code = ''zz'', ce_Freq = 1, ce_Source = ''s''\<rparr>]
     [\<lparr>ce_Text = ''t0'', ce_Code = ''abi'', ce_Freq = 10, ce_Source = ''s''\<rparr>,
      \<lparr>ce_Text = ''t1'', ce_Code = ''ab_'', ce_Freq = 30, ce_Source = ''s''\<rparr>,
      \<lparr>ce_Text = ''t2'', ce_Code = ''abe'', ce_Freq = 20, ce_Source = ''s''\<rparr>,
      \<lparr>ce_Text = ''t3'', ce_Code = ''abcde'', ce_Freq = 5, ce_Source = ''s''\<rparr>,
      \<lparr>ce_Text = ''t4'', ce_Code = ''abcd'', ce_Freq = 7, ce_Source = ''s''\<rparr>,
      \<lparr>ce_Text = ''t5'', ce_Code = ''zz'', ce_Freq = 1, ce_Source = ''s''\<rparr>] \<and>
   AddCandidateCodes_rev2 (sortSlice higherFreq)
     [\<lparr>ce_Text = ''t0'', ce_Code = ''ab'', ce_Freq = 10, ce_Source = ''s''\<rparr>,
      \<lparr>ce_Text = ''t1'', ce_Code = ''ab'', ce_Freq = 30, ce_Source = ''s''\<rparr>,
      \<lparr>ce_Text = ''t2'', ce_Code = ''ab'', ce_Freq = 20, ce_Source = ''s''\<rparr>,
      \<lparr>ce_Text = ''t3'', ce_Code = ''abcd'', ce_Freq = 5, ce_Source = ''s''\<rparr>,
      \<lparr>ce_Text = ''t4'', ce_Code = ''abcd'', ce_Freq = 7, ce_Source = ''s''\<rparr>,
      \<lparr>ce_Text = ''t5'', ce_Code = ''zz'', ce_Freq = 1, ce_Source = ''s''\<rparr>] =
     [\<lparr>ce_Text = ''t0'', ce_Code = ''abi'', ce_Freq = 10, ce_Source = ''s''\<rparr>,
      \<lparr>ce_Text = ''t1'', ce_Code = ''ab_'', ce_Freq = 30, ce_Source = ''s''\<rparr>,
      \<lparr>ce_Text = ''t2'', ce_Code = ''abe'', ce_Freq = 20, ce_Source = ''s''\<rparr>,
      \<lparr>ce_Text = ''t3'', ce_Code = ''abcde'', ce_Freq = 5, ce_Source = ''s''\<rparr>,
      \<lparr>ce_Text = ''t4'', ce_Code = ''abcd_'', ce_Freq = 7, ce_Source = ''s''\<rparr>,
      \<lparr>ce_Text = ''t5'', ce_Code = ''zz'', ce_Freq = 1, ce_Source = ''s''\<rparr>] \<and>
   suffixedBy newCode2
     [\<lparr>ce_Text = ''t0'', ce_Code = ''ab'', ce_Freq = 10, ce_Source = ''s''\<rparr>,
      \<lparr>ce_Text = ''t1'', ce_Code = ''ab'', ce_Freq = 30, ce_Source = ''s''\<rparr>,
      \<lparr>ce_Text = ''t2'', ce_Code = ''ab'', ce_Freq = 20, ce_Source = ''s''\<rparr>,
      \<lparr>ce_Text = ''t3'', ce_Code = ''abcd'', ce_Freq = 5, ce_Source = ''s''\<rparr>,
      \<lparr>ce_Text = ''t4'', ce_Code = ''abcd'', ce_Freq = 7, ce_Source = ''s''\<rparr>,
      \<lparr>ce_Text = ''t5'', ce_Code = ''zz'', ce_Freq = 1, ce_Source = ''s''\<rparr>]
     [\<lparr>ce_Text = ''t0'', ce_Code = ''abi'', ce_Freq = 10, ce_Source = ''s''\<rparr>,
      \<lparr>ce_Text = ''t1'', ce_Code = ''ab_'', ce_Freq = 30, ce_Source = ''s''\<rparr>,
      \<lparr>ce_Text = ''t2'', ce_Code = ''abe'', ce_Freq = 20, ce_Source = ''s''\<rparr>,
      \<lparr>ce_Text = ''t3'', ce_Code = ''abcde'', ce_Freq = 5, ce_Source = ''s''\<rparr>,
      \<lparr>ce_Text = ''t4'', ce_Code = ''abcd_'', ce_Freq = 7, ce_Source = ''s''\<rparr>,
      \<lparr>ce_Text = ''t5'', ce_Code = ''zz'', ce_Freq = 1, ce_Source = ''s''\<rparr>] \<and>
   (0 :: nat) < 1 \<and> (1 :: nat) < 10 \<and> newCode ''ab'' 1 = ''abe'' \<and> newCode2 ''ab'' 1 = ''abe'' \<and>
   (10 :: nat) \<le> 21 \<and> newCode ''ab'' 21 = ''ab==e'' \<and> newCode2 ''ab'' 21 = ''ab==e''"
proof -
  have a: "AddCandidateCodes (sortSlice higherFreq)
     [\<lparr>ce_Text = ''t0'', ce_Code = ''ab'', ce_Freq = 10, ce_Source = ''s''\<rparr>,
      \<lparr>ce_Text = ''t1'', ce_Code = ''ab'', ce_Freq = 30, ce_Source = ''s''\<rparr>,
      \<lparr>ce_Text = ''t2'', ce_Code = ''ab'', ce_Freq = 20, ce_Source = ''s''\<rparr>,
      \<lparr>ce_Text = ''t3'', ce_Code = ''abcd'', ce_Freq = 5, ce_Source = ''s''\<rparr>,
      \<lparr>ce_Text = ''t4'', ce_Code = ''abcd'', ce_Freq = 7, ce_Source = ''s''\<rparr>,
      \<lparr>ce_Text = ''t5'', ce_Code = ''zz'', ce_Freq = 1, ce_Source = ''s''\<rparr>] =
     [\<lparr>ce_Text = ''t0'', ce_Code = ''abi'', ce_Freq = 10, ce_Source = ''s''\<rparr>,
      \<lparr>ce_Text = ''t1'', ce_Code = ''ab_'', ce_Freq = 30, ce_Source = ''s''\<rparr>,
      \<lparr>ce_Text = ''t2'', ce_Code = ''abe'', ce_Freq = 20, ce_Source = ''s''\<rparr>,
      \<lparr>ce_Text = ''t3'', ce_Code = ''abcde'', ce_Freq = 5, ce_Source = ''s''\<rparr>,
      \<lparr>ce_Text = ''t4'', ce_Code = ''abcd'', ce_Freq = 7, ce_Source = ''s''\<rparr>,
      \<lparr>ce_Text = ''t5'', ce_Code = ''zz'', ce_Freq = 1, ce_Source = ''s''\<rparr>]"
    by code_simp
  have b: "AddCandidateCodes_rev2 (sortSlice higherFreq)
     [\<lparr>ce_Text = ''t0'', ce_Code = ''ab'', ce_Freq = 10, ce_Source = ''s''\<rparr>,
      \<lparr>ce_Text = ''t1'', ce_Code = ''ab'', ce_Freq = 30, ce_Source = ''s''\<rparr>,
      \<lparr>ce_Text = ''t2'', ce_Code = ''ab'', ce_Freq = 20, ce_Source = ''s''\<rparr>,
      \<lparr>ce_Text = ''t3'', ce_Code = ''abcd'', ce_Freq = 5, ce_Source = ''s''\<rparr>,
      \<lparr>ce_Text = ''t4'', ce_Code = ''abcd'', ce_Freq = 7, ce_Source = ''s''\<rparr>,
      \<lparr>ce_Text = ''t5'', ce_Code = ''zz'', ce_Freq = 1, ce_Source = ''s''\<rparr>] =
     [\<lparr>ce_Text = ''t0'', ce_Code = ''abi'', ce_Freq = 10, ce_Source = ''s''\<rparr>,
      \<lparr>ce_Text = ''t1'', ce_Code = ''ab_'', ce_Freq = 30, ce_Source = ''s''\<rparr>,
      \<lparr>ce_Text = ''t2'', ce_Code = ''abe'', ce_Freq = 20, ce_Source = ''s''\<rparr>,
      \<lparr>ce_Text = ''t3'', ce_Code = ''abcde'', ce_Freq = 5, ce_Source = ''s''\<rparr>,
      \<lparr>ce_Text = ''t4'', ce_Code = ''abcd_'', ce_Freq = 7, ce_Source = ''s''\<rparr>,
      \<lparr>ce_Text = ''t5'', ce_Code = ''zz'', ce_Freq = 1, ce_Source = ''s''\<rparr>]"
    by code_simp
  from candidate_codes[of "sortSlice higherFreq"
     "[\<lparr>ce_Text = ''t0'', ce_Code = ''ab'', ce_Freq = 10, ce_Source = ''s''\<rparr>,
      \<lparr>ce_Text = ''t1'', ce_Code = ''ab'', ce_Freq = 30, ce_Source = ''s''\<rparr>,
      \<lparr>ce_Text = ''t2'', ce_Code = ''ab'', ce_Freq = 20, ce_Source = ''s''\<rparr>,
      \<lparr>ce_Text = ''t3'', ce_Code = ''abcd'', ce_Freq = 5, ce_Source = ''s''\<rparr>,
      \<lparr>ce_Text = ''t4'', ce_Code = ''abcd'', ce_Freq = 7, ce_Source = ''s''\<rparr>,
      \<lparr>ce_Text = ''t5'', ce_Code = ''zz'', ce_Freq = 1, ce_Source = ''s''\<rparr>]" "''ab''" 1]
     candidate_codes[of "sortSlice higherFreq"
     "[\<lparr>ce_Text = ''t0'', ce_Code = ''ab'', ce_Freq = 10, ce_Source = ''s''\<rparr>,
      \<lparr>ce_Text = ''t1'', ce_Code = ''ab'', ce_Freq = 30, ce_Source = ''s''\<rparr>,
      \<lparr>ce_Text = ''t2'', ce_Code = ''ab'', ce_Freq = 20, ce_Source = ''s''\<rparr>,
      \<lparr>ce_Text = ''t3'', ce_Code = ''abcd'', ce_Freq = 5, ce_Source = ''s''\<rparr>,
      \<lparr>ce_Text = ''t4'', ce_Code = ''abcd'', ce_Freq = 7, ce_Source = ''s''\<rparr>,
      \<lparr>ce_Text = ''t5'', ce_Code = ''zz'', ce_Freq = 1, ce_Source = ''s''\<rparr>]" "''ab''" 21]
     sortSlice_sortsBy
  show ?thesis by (simp add: a b candidateSuffixes_def)
qed

text \<open>
  The claim fails on the second revision: of two entries with the four-byte code
  \<open>abcd\<close>, the more frequent one, at place 0, receives \<open>abcd_\<close> and not the bare code.
  The two frequencies differ, so every sort of the group gives this arrangement; the group is
  sorted here by insertion, as the library does for a group of two.
\<close>

theorem candidate_codes_counterexample:
  "AddCandidateCodes_rev2 (sortSlice higherFreq)
     [\<lparr>ce_Text = ''t3'', ce_Code = ''abcd'', ce_Freq = 5, ce_Source = ''s''\<rparr>,
      \<lparr>ce_Text = ''t4'', ce_Code = ''abcd'', ce_Freq = 7, ce_Source = ''s''\<rparr>] =
     [\<lparr>ce_Text = ''t3'', ce_Code = ''abcde'', ce_Freq = 5, ce_Source = ''s''\<rparr>,
      \<lparr>ce_Text = ''t4'', ce_Code = ''abcd_'', ce_Freq = 7, ce_Source = ''s''\<rparr>]"
  by code_simp

text \<open>
  The order of entries of equal frequency is not part of the amended claim.  What
  \<open>AddCandidateCodes\<close> asks of the library does not fix it: insertion sort applied to the
  reversed group meets \<open>sortsBy higherFreq\<close> too, and with it two entries of equal
  frequency receive their symbols against the source order.  \<open>sortDictEntries\<close>, which has
  to keep the source order of such entries, calls \<open>sort.SliceStable\<close>.
\<close>

lemma tie_order_not_fixed:
  "sortsBy higherFreq (\<lambda>g. sortSlice higherFreq (rev g)) \<and>
   AddCandidateCodes (sortSlice higherFreq)
     [\<lparr>ce_Text = ''t0'', ce_Code = ''ab'', ce_Freq = 5, ce_Source = ''s''\<rparr>,
      \<lparr>ce_Text = ''t1'', ce_Code = ''ab'', ce_Freq = 5, ce_Source = ''s''\<rparr>] =
     [\<lparr>ce_Text = ''t0'', ce_Code = ''ab_'', ce_Freq = 5, ce_Source = ''s''\<rparr>,
      \<lparr>ce_Text = ''t1'', ce_Code = ''abe'', ce_Freq = 5, ce_Source = ''s''\<rparr>] \<and>
   AddCandidateCodes (\<lambda>g. sortSlice higherFreq (rev g))
     [\<lparr>ce_Text = ''t0'', ce_Code = ''ab'', ce_Freq = 5, ce_Source = ''s''\<rparr>,
      \<lparr>ce_Text = ''t1'', ce_Code = ''ab'', ce_Freq = 5, ce_Source = ''s''\<rparr>] =
     [\<lparr>ce_Text = ''t0'', ce_Code = ''abe'', ce_Freq = 5, ce_Source = ''s''\<rparr>,
      \<lparr>ce_Text = ''t1'', ce_Code = ''ab_'', ce_Freq = 5, ce_Source = ''s''\<rparr>]"
proof -
  have "\<And>xs. sorted_wrt (\<lambda>a b. \<not> higherFreq b a) (sortSlice higherFreq (rev xs))"
    by (rule sorted_sortSlice) (simp_all add: higherFreq_def)
  then have 1: "sortsBy higherFreq (\<lambda>g. sortSlice higherFreq (rev g))"
    by (simp add: sortsBy_def mset_sortSlice)
  have 2: "AddCandidateCodes (sortSlice higherFreq)
     [\<lparr>ce_Text = ''t0'', ce_Code = ''ab'', ce_Freq = 5, ce_Source = ''s''\<rparr>,
      \<lparr>ce_Text = ''t1'', ce_Code = ''ab'', ce_Freq = 5, ce_Source = ''s''\<rparr>] =
     [\<lparr>ce_Text = ''t0'', ce_Code = ''ab_'', ce_Freq = 5, ce_Source = ''s''\<rparr>,
      \<lparr>ce_Text = ''t1'', ce_Code = ''abe'', ce_Freq = 5, ce_Source = ''s''\<rparr>]"
    by code_simp
  have 3: "AddCandidateCodes (\<lambda>g. sortSlice higherFreq (rev g))
     [\<lparr>ce_Text = ''t0'', ce_Code = ''ab'', ce_Freq = 5, ce_Source = ''s''\<rparr>,
      \<lparr>ce_Text = ''t1'', ce_Code = ''ab'', ce_Freq = 5, ce_Source = ''s''\<rparr>] =
     [\<lparr>ce_Text = ''t0'', ce_Code = ''abe'', ce_Freq = 5, ce_Source = ''s''\<rparr>,
      \<lparr>ce_Text = ''t1'', ce_Code = ''ab_'', ce_Freq = 5, ce_Source = ''s''\<rparr>]"
    by code_simp
  from 1 2 3 show ?thesis by simp
qed

end
